theory Spec2Isabelle
  imports Main "HOL-Library.AList" "HOL-Library.Sublist" "HOL-Library.Multiset"
begin

section \<open>The table store of Virality (localStorage.ts)\<close>

text \<open>
  The store keeps tables in React Native's \<^verbatim>\<open>AsyncStorage\<close>, a persistent map from
  string keys to strings. A table definition is stored as JSON under the table's name, an
  item as JSON under \<^verbatim>\<open>name|id\<close>. Every index of a table is an array of
  \<^verbatim>\<open>{id, value}\<close> entries inside the table definition, re-sorted on every change.

  The embedding follows the canonical copy of the module (the one with
  \<^verbatim>\<open>deleteTable\<close> and \<^verbatim>\<open>item[field]\<close>). Asynchrony is left out: every
  function awaits each storage call before the next, so a call is a function from the
  state before to the state after. The state has three parts that the source mutates:
  the storage, the table definition object the caller holds, and the item object the
  caller passes in.
\<close>

subsection \<open>JavaScript values\<close>

text \<open>
  Items are flat records: the list of their properties, each a name and a primitive
  value. A property that is absent reads as \<^verbatim>\<open>undefined\<close>; the properties that
  every object inherits (\<^verbatim>\<open>constructor\<close>, \<^verbatim>\<open>toString\<close> and the like) are not
  modelled, neither here nor for the \<^verbatim>\<open>indexes\<close> object of a table definition.
  Numbers are the integers (ids, offsets and counts are integral); fractions, NaN, the
  infinities and rounding to 53 bits are outside the embedding, and where an operation of
  the language yields NaN or a fraction the model says \<open>None\<close>.
  Strings are lists of ASCII code units.
\<close>

datatype jsval = JUndefined | JNull | JBool bool | JNum int | JStr string

type_synonym item = "(string \<times> jsval) list"

text \<open>\<^verbatim>\<open>item[f]\<close> and \<^verbatim>\<open>item[f] = v\<close>.\<close>

definition get_field :: "item \<Rightarrow> string \<Rightarrow> jsval" where
  "get_field item f = (case map_of item f of None \<Rightarrow> JUndefined | Some v \<Rightarrow> v)"

definition set_field :: "string \<Rightarrow> jsval \<Rightarrow> item \<Rightarrow> item" where
  "set_field f v item = AList.update f v item"

datatype error = NotFound string | TypeError

text \<open>\<^verbatim>\<open>!v\<close> is true for undefined, null, false, 0 and the empty string.\<close>

fun falsy :: "jsval \<Rightarrow> bool" where
  "falsy JUndefined = True"
| "falsy JNull = True"
| "falsy (JBool b) = (\<not> b)"
| "falsy (JNum n) = (n = 0)"
| "falsy (JStr s) = (s = [])"

fun is_number :: "jsval \<Rightarrow> bool" where
  "is_number (JNum n) = True"
| "is_number v = False"

subsection \<open>Numbers and strings\<close>

text \<open>Number to string: the decimal digits, with a minus sign below zero.\<close>

definition digit_char :: "nat \<Rightarrow> char" where
  "digit_char d = char_of (48 + d)"

fun show_nat :: "nat \<Rightarrow> string" where
  "show_nat n = (if n < 10 then [digit_char n] else show_nat (n div 10) @ [digit_char (n mod 10)])"

declare show_nat.simps [simp del]

definition show_int :: "int \<Rightarrow> string" where
  "show_int i = (if i < 0 then CHR ''-'' # show_nat (nat (- i)) else show_nat (nat i))"

text \<open>The string a template literal or a key lookup makes of a value.\<close>

fun ToString :: "jsval \<Rightarrow> string" where
  "ToString JUndefined = ''undefined''"
| "ToString JNull = ''null''"
| "ToString (JBool b) = (if b then ''true'' else ''false'')"
| "ToString (JNum n) = show_int n"
| "ToString (JStr s) = s"

text \<open>
  String to number, after the grammar of \<^verbatim>\<open>StringNumericLiteral\<close>: white space
  around, nothing (zero), a hexadecimal, octal or binary integer, or a signed decimal
  with an optional fraction and exponent. The value is exact. \<open>None\<close> stands for NaN,
  an infinity or a value that is not an integer: none of them equals an integer.
\<close>

definition is_ws :: "char \<Rightarrow> bool" where
  "is_ws c = (of_char c \<in> {9, 10, 11, 12, 13, 32 :: nat})"

definition trim :: "string \<Rightarrow> string" where
  "trim s = rev (dropWhile is_ws (rev (dropWhile is_ws s)))"

definition digit_of :: "char \<Rightarrow> nat option" where
  "digit_of c = (let k = of_char c :: nat in
     if 48 \<le> k \<and> k \<le> 57 then Some (k - 48)
     else if 97 \<le> k \<and> k \<le> 102 then Some (k - 87)
     else if 65 \<le> k \<and> k \<le> 70 then Some (k - 55)
     else None)"

definition is_digit :: "nat \<Rightarrow> char \<Rightarrow> bool" where
  "is_digit radix c = (case digit_of c of None \<Rightarrow> False | Some d \<Rightarrow> d < radix)"

definition digits_value :: "nat \<Rightarrow> string \<Rightarrow> nat" where
  "digits_value radix s = foldl (\<lambda>acc c. radix * acc + the (digit_of c)) 0 s"

definition radix_literal :: "nat \<Rightarrow> string \<Rightarrow> int option" where
  "radix_literal radix s =
     (if s \<noteq> [] \<and> list_all (is_digit radix) s then Some (int (digits_value radix s)) else None)"

definition signed_digits :: "string \<Rightarrow> int option" where
  "signed_digits s =
     (case s of
        c # r \<Rightarrow>
          if c = CHR ''+'' then radix_literal 10 r
          else if c = CHR ''-'' then map_option uminus (radix_literal 10 r)
          else radix_literal 10 s
      | [] \<Rightarrow> None)"

definition exponent_part :: "string \<Rightarrow> int option" where
  "exponent_part s =
     (case s of
        [] \<Rightarrow> Some 0
      | c # r \<Rightarrow> if c = CHR ''e'' \<or> c = CHR ''E'' then signed_digits r else None)"

definition scale10 :: "nat \<Rightarrow> int \<Rightarrow> int option" where
  "scale10 m k =
     (if 0 \<le> k then Some (int m * 10 ^ nat k)
      else if (10 :: nat) ^ nat (- k) dvd m then Some (int (m div 10 ^ nat (- k)))
      else None)"

definition unsigned_decimal :: "string \<Rightarrow> int option" where
  "unsigned_decimal s =
     (if s = ''Infinity'' then None
      else
        let ip = takeWhile (is_digit 10) s;
            r1 = dropWhile (is_digit 10) s;
            fp = (case r1 of c # r \<Rightarrow> if c = CHR ''.'' then takeWhile (is_digit 10) r else [] | [] \<Rightarrow> []);
            r2 = (case r1 of c # r \<Rightarrow> if c = CHR ''.'' then dropWhile (is_digit 10) r else r1 | [] \<Rightarrow> [])
        in if ip = [] \<and> fp = [] then None
           else (case exponent_part r2 of
                   None \<Rightarrow> None
                 | Some e \<Rightarrow> scale10 (digits_value 10 (ip @ fp)) (e - int (length fp))))"

definition StringToNumber :: "string \<Rightarrow> int option" where
  "StringToNumber s =
     (let t = trim s in
      if t = [] then Some 0
      else if take 2 t = ''0x'' \<or> take 2 t = ''0X'' then radix_literal 16 (drop 2 t)
      else if take 2 t = ''0o'' \<or> take 2 t = ''0O'' then radix_literal 8 (drop 2 t)
      else if take 2 t = ''0b'' \<or> take 2 t = ''0B'' then radix_literal 2 (drop 2 t)
      else (case t of
              c # r \<Rightarrow>
                if c = CHR ''+'' then unsigned_decimal r
                else if c = CHR ''-'' then map_option uminus (unsigned_decimal r)
                else unsigned_decimal t
            | [] \<Rightarrow> None))"

fun ToNumber :: "jsval \<Rightarrow> int option" where
  "ToNumber JUndefined = None"
| "ToNumber JNull = Some 0"
| "ToNumber (JBool b) = Some (if b then 1 else 0)"
| "ToNumber (JNum n) = Some n"
| "ToNumber (JStr s) = StringToNumber s"

text \<open>
  \<^verbatim>\<open>parseInt(s)\<close> with no radix: leading white space and a sign are skipped, a
  \<^verbatim>\<open>0x\<close> prefix selects radix 16, and the longest run of digits is read; no digit
  gives NaN (\<open>None\<close>).
\<close>

definition parseInt :: "string \<Rightarrow> int option" where
  "parseInt s =
     (let s0 = dropWhile is_ws s;
          neg = (case s0 of c # r \<Rightarrow> c = CHR ''-'' | [] \<Rightarrow> False);
          s1 = (case s0 of c # r \<Rightarrow> if c = CHR ''+'' \<or> c = CHR ''-'' then r else s0 | [] \<Rightarrow> s0);
          hex = (take 2 s1 = ''0x'' \<or> take 2 s1 = ''0X'');
          radix = (if hex then 16 else 10);
          s2 = (if hex then drop 2 s1 else s1);
          z = takeWhile (is_digit radix) s2
      in if z = [] then None
         else Some ((if neg then - 1 else 1) * int (digits_value radix z)))"

text \<open>
  \<^verbatim>\<open>a == b\<close> on primitives: values of one type compare as they are, null and
  undefined equal each other only, a boolean becomes 0 or 1, and a number meets a string
  through the string's numeric value.
\<close>

fun loose_eq :: "jsval \<Rightarrow> jsval \<Rightarrow> bool" where
  "loose_eq JUndefined y = (y = JUndefined \<or> y = JNull)"
| "loose_eq JNull y = (y = JUndefined \<or> y = JNull)"
| "loose_eq (JNum n) (JNum m) = (n = m)"
| "loose_eq (JNum n) (JStr s) = (StringToNumber s = Some n)"
| "loose_eq (JNum n) (JBool b) = (n = (if b then 1 else 0))"
| "loose_eq (JNum n) y = False"
| "loose_eq (JStr s) (JStr t) = (s = t)"
| "loose_eq (JStr s) (JNum n) = (StringToNumber s = Some n)"
| "loose_eq (JStr s) (JBool b) = (StringToNumber s = Some (if b then 1 else 0))"
| "loose_eq (JStr s) y = False"
| "loose_eq (JBool a) (JBool b) = (a = b)"
| "loose_eq (JBool a) (JNum n) = (n = (if a then 1 else 0))"
| "loose_eq (JBool a) (JStr s) = (StringToNumber s = Some (if a then 1 else 0))"
| "loose_eq (JBool a) y = False"

subsection \<open>The data model\<close>

record LocalIndexKey =
  key_id :: jsval
  key_value :: jsval

text \<open>
  The three fields of an index definition are optional. \<open>index_values\<close> is the
  source's \<^verbatim>\<open>values\<close>; \<open>None\<close> is the field not being an array yet.
\<close>

record LocalIndexDef =
  ascending :: "bool option"
  numerical :: "bool option"
  index_values :: "LocalIndexKey list option"

text \<open>
  \<open>indexes\<close> is the object from index names to index definitions, as the list of its
  properties in the order \<^verbatim>\<open>for ... in\<close> visits them.
\<close>

record LocalTableDef =
  name :: string
  nextId :: int
  indexes :: "(string \<times> LocalIndexDef) list"

text \<open>
  What the storage holds under a key is a JSON text. The texts this module writes are
  those of table definitions and of items; a text is represented by the value that
  \<^verbatim>\<open>JSON.parse\<close> makes of it. \<^verbatim>\<open>JSON.parse\<close> returns \<^verbatim>\<open>any\<close>: a reader
  gets whatever was written under the key. \<^verbatim>\<open>JSON.stringify\<close> leaves out the
  properties of an object that hold \<^verbatim>\<open>undefined\<close>, which is all it changes on an
  item; on a table definition it changes nothing that a read can tell (an entry whose
  value is \<^verbatim>\<open>undefined\<close> comes back without the property, and reads the same).
\<close>

datatype json = TableJson LocalTableDef | ItemJson item

definition JSON_stringify_item :: "item \<Rightarrow> json" where
  "JSON_stringify_item item = ItemJson (filter (\<lambda>(f, v). v \<noteq> JUndefined) item)"

record StorageResults =
  items :: "json option list"
  continuation :: "string option"

subsection \<open>AsyncStorage\<close>

text \<open>
  The storage is the list of its keys with their texts. Writing a key replaces its text
  or adds the key; the batched operations do the single ones in turn, and nothing runs
  in between.
\<close>

type_synonym AsyncStorage = "(string \<times> json) list"

definition AsyncStorage_getItem :: "AsyncStorage \<Rightarrow> string \<Rightarrow> json option" where
  "AsyncStorage_getItem st k = map_of st k"

definition AsyncStorage_setItem :: "string \<Rightarrow> json \<Rightarrow> AsyncStorage \<Rightarrow> AsyncStorage" where
  "AsyncStorage_setItem k v st = AList.update k v st"

definition AsyncStorage_removeItem :: "string \<Rightarrow> AsyncStorage \<Rightarrow> AsyncStorage" where
  "AsyncStorage_removeItem k st = AList.delete k st"

definition AsyncStorage_multiSet :: "(string \<times> json) list \<Rightarrow> AsyncStorage \<Rightarrow> AsyncStorage" where
  "AsyncStorage_multiSet rows st = fold (\<lambda>(k, v). AsyncStorage_setItem k v) rows st"

definition AsyncStorage_multiGet :: "string list \<Rightarrow> AsyncStorage \<Rightarrow> (string \<times> json option) list" where
  "AsyncStorage_multiGet ks st = map (\<lambda>k. (k, AsyncStorage_getItem st k)) ks"

definition AsyncStorage_multiRemove :: "string list \<Rightarrow> AsyncStorage \<Rightarrow> AsyncStorage" where
  "AsyncStorage_multiRemove ks st = fold AsyncStorage_removeItem ks st"

definition AsyncStorage_getAllKeys :: "AsyncStorage \<Rightarrow> string list" where
  "AsyncStorage_getAllKeys st = map fst st"

text \<open>The key of an item: \<^verbatim>\<open>`${table.name}|${id}`\<close>.\<close>

definition item_key :: "string \<Rightarrow> jsval \<Rightarrow> string" where
  "item_key nm i = nm @ ''|'' @ ToString i"

subsection \<open>Table lifecycle\<close>

definition defineTable :: "string \<Rightarrow> (string \<times> LocalIndexDef) list option \<Rightarrow> AsyncStorage \<Rightarrow> AsyncStorage" where
  "defineTable nm ixs st =
     (case AsyncStorage_getItem st nm of
        None \<Rightarrow>
          AsyncStorage_setItem nm
            (TableJson \<lparr>name = nm, nextId = 1, indexes = (case ixs of None \<Rightarrow> [] | Some d \<Rightarrow> d)\<rparr>) st
      | Some table \<Rightarrow> st)"


definition startsWith :: "string \<Rightarrow> string \<Rightarrow> bool" where
  "startsWith k p = prefix p k"

definition deleteTable :: "string \<Rightarrow> AsyncStorage \<Rightarrow> AsyncStorage" where
  "deleteTable nm st =
     (let allKeys = AsyncStorage_getAllKeys st;
          tableKeys = filter (\<lambda>k. k = nm \<or> startsWith k (nm @ ''|'')) allKeys
      in if length tableKeys > 0 then AsyncStorage_multiRemove tableKeys st else st)"

subsection \<open>Items\<close>

definition getItem :: "AsyncStorage \<Rightarrow> LocalTableDef \<Rightarrow> jsval \<Rightarrow> json option" where
  "getItem st table i =
     (let key = item_key (name table) i in
      case AsyncStorage_getItem st key of
        None \<Rightarrow> None
      | Some v \<Rightarrow> Some v)"

subsection \<open>Index maintenance\<close>

text \<open>
  The comparators of the four sort policies. \<^verbatim>\<open>a.value - b.value\<close> turns both
  sides into numbers, and \<^verbatim>\<open>sort\<close> reads a NaN result as 0. The maintenance below
  stores only numbers in a numerical index, and on numbers the difference is exact; on
  other values (which only a caller who writes entries into an index definition can put
  there) a side that is not an integer makes the difference 0 here.
  \<^verbatim>\<open>localeCompare\<close> is a method of strings: called on anything else it raises a
  TypeError; its argument is turned into a string. The collation of the host's locale is
  the parameter \<open>lc\<close>.
\<close>

type_synonym collation = "string \<Rightarrow> string \<Rightarrow> int"

definition js_minus :: "jsval \<Rightarrow> jsval \<Rightarrow> int" where
  "js_minus a b =
     (case ToNumber a of
        None \<Rightarrow> 0
      | Some x \<Rightarrow> (case ToNumber b of None \<Rightarrow> 0 | Some y \<Rightarrow> x - y))"

definition localeCompare :: "collation \<Rightarrow> jsval \<Rightarrow> jsval \<Rightarrow> error + int" where
  "localeCompare lc a b = (case a of JStr s \<Rightarrow> Inr (lc s (ToString b)) | _ \<Rightarrow> Inl TypeError)"

definition comparator :: "collation \<Rightarrow> bool \<Rightarrow> bool \<Rightarrow> LocalIndexKey \<Rightarrow> LocalIndexKey \<Rightarrow> error + int" where
  "comparator lc numer asc a b =
     (if numer then
        (if asc then Inr (js_minus (key_value a) (key_value b))
         else Inr (js_minus (key_value b) (key_value a)))
      else
        (if asc then localeCompare lc (key_value a) (key_value b)
         else localeCompare lc (key_value b) (key_value a)))"

text \<open>
  \<^verbatim>\<open>Array.prototype.sort\<close> with a comparator, as an insertion sort that keeps equal
  elements in their order. Which pairs an engine compares is its own business; with a
  comparator that is a total preorder every engine returns a sorted permutation, and that
  is all the theorems below use. An exception of the comparator leaves \<^verbatim>\<open>sort\<close>.
\<close>

fun insert_by :: "('a \<Rightarrow> 'a \<Rightarrow> error + int) \<Rightarrow> 'a \<Rightarrow> 'a list \<Rightarrow> error + 'a list" where
  "insert_by cmp x [] = Inr [x]"
| "insert_by cmp x (y # ys) =
     (case cmp x y of
        Inl e \<Rightarrow> Inl e
      | Inr c \<Rightarrow>
          if c < 0 then Inr (x # y # ys)
          else (case insert_by cmp x ys of Inl e \<Rightarrow> Inl e | Inr r \<Rightarrow> Inr (y # r)))"

fun sort_by :: "('a \<Rightarrow> 'a \<Rightarrow> error + int) \<Rightarrow> 'a list \<Rightarrow> error + 'a list" where
  "sort_by cmp [] = Inr []"
| "sort_by cmp (x # xs) =
     (case sort_by cmp xs of Inl e \<Rightarrow> Inl e | Inr r \<Rightarrow> insert_by cmp x r)"

text \<open>
  The scan of \<^verbatim>\<open>updateTableIndexes\<close> for an entry of the item: the first entry whose
  id \<^verbatim>\<open>==\<close> the item's gets the new value when that differs (\<^verbatim>\<open>!==\<close>). The result is
  the array, \<^verbatim>\<open>newEntry\<close> and \<^verbatim>\<open>changed\<close>.
\<close>

fun scan_entry :: "jsval \<Rightarrow> jsval \<Rightarrow> LocalIndexKey list \<Rightarrow> LocalIndexKey list \<times> bool \<times> bool" where
  "scan_entry i v [] = ([], True, False)"
| "scan_entry i v (e # es) =
     (if loose_eq (key_id e) i then
        (if key_value e \<noteq> v then (e\<lparr>key_value := v\<rparr> # es, False, True)
         else (e # es, False, False))
      else (case scan_entry i v es of (es', newEntry, changed) \<Rightarrow> (e # es', newEntry, changed)))"

text \<open>
  One round of the loop of \<^verbatim>\<open>updateTableIndexes\<close>, for the index \<open>field\<close>. When the
  comparator raises, the array keeps the entries it has (their order is then the
  engine's; here the order before the sort).
\<close>

definition update_index :: "collation \<Rightarrow> string \<Rightarrow> LocalIndexDef \<Rightarrow> item \<Rightarrow> LocalIndexDef \<times> (error + bool)" where
  "update_index lc field index item =
     (let i = get_field item ''id'';
          value0 = get_field item field;
          numer = (numerical index = Some True);
          v = (if numer \<and> \<not> is_number value0 then JNum 0 else value0);
          (vals, newEntry, changed) =
             (case index_values index of
                Some vs \<Rightarrow> scan_entry i v vs
              | None \<Rightarrow> ([], True, False));
          vals1 = (if newEntry then vals @ [\<lparr>key_id = i, key_value = v\<rparr>] else vals);
          changed1 = (changed \<or> newEntry)
      in if changed1 then
           (case sort_by (comparator lc numer (ascending index = Some True)) vals1 of
              Inl e \<Rightarrow> (index\<lparr>index_values := Some vals1\<rparr>, Inl e)
            | Inr vals2 \<Rightarrow> (index\<lparr>index_values := Some vals2\<rparr>, Inr True))
         else (index\<lparr>index_values := Some vals1\<rparr>, Inr False))"

fun update_indexes :: "collation \<Rightarrow> item \<Rightarrow> (string \<times> LocalIndexDef) list \<Rightarrow> (string \<times> LocalIndexDef) list \<times> (error + bool)" where
  "update_indexes lc item [] = ([], Inr False)"
| "update_indexes lc item ((field, index) # rest) =
     (case update_index lc field index item of
        (index', Inl e) \<Rightarrow> ((field, index') # rest, Inl e)
      | (index', Inr changed) \<Rightarrow>
          (case update_indexes lc item rest of
             (rest', Inl e) \<Rightarrow> ((field, index') # rest', Inl e)
           | (rest', Inr modified) \<Rightarrow> ((field, index') # rest', Inr (changed \<or> modified))))"

definition updateTableIndexes :: "collation \<Rightarrow> LocalTableDef \<Rightarrow> item \<Rightarrow> LocalTableDef \<times> (error + bool)" where
  "updateTableIndexes lc table item =
     (case update_indexes lc item (indexes table) of
        (ixs, r) \<Rightarrow> (table\<lparr>indexes := ixs\<rparr>, r))"

text \<open>
  \<^verbatim>\<open>setItem\<close> returns how the call ended and the three things it mutates: the table
  definition, the item and the storage. An exception of the index maintenance leaves the
  call before anything is written, with the table definition and the item as they were
  mutated so far.
\<close>

definition setItem :: "collation \<Rightarrow> LocalTableDef \<Rightarrow> item \<Rightarrow> AsyncStorage \<Rightarrow> (error + unit) \<times> LocalTableDef \<times> item \<times> AsyncStorage" where
  "setItem lc table item st =
     (let assign = falsy (get_field item ''id'');
          item1 = (if assign then set_field ''id'' (JNum (nextId table)) item else item);
          table1 = (if assign then table\<lparr>nextId := nextId table + 1\<rparr> else table)
      in case updateTableIndexes lc table1 item1 of
           (table2, Inl e) \<Rightarrow> (Inl e, table2, item1, st)
         | (table2, Inr modified) \<Rightarrow>
             (let saveTableDef = (assign \<or> modified);
                  rows = [(item_key (name table2) (get_field item1 ''id''), JSON_stringify_item item1)]
                         @ (if saveTableDef then [(name table2, TableJson table2)] else [])
              in (Inr (), table2, item1, AsyncStorage_multiSet rows st)))"

fun splice_first :: "jsval \<Rightarrow> LocalIndexKey list \<Rightarrow> LocalIndexKey list \<times> bool" where
  "splice_first i [] = ([], False)"
| "splice_first i (e # es) =
     (if loose_eq (key_id e) i then (es, True)
      else (case splice_first i es of (es', modified) \<Rightarrow> (e # es', modified)))"

fun remove_from_indexes :: "jsval \<Rightarrow> (string \<times> LocalIndexDef) list \<Rightarrow> (string \<times> LocalIndexDef) list \<times> bool" where
  "remove_from_indexes i [] = ([], False)"
| "remove_from_indexes i ((field, index) # rest) =
     (case remove_from_indexes i rest of
        (rest', modified) \<Rightarrow>
          (case index_values index of
             Some vs \<Rightarrow>
               (case splice_first i vs of
                  (vs', m) \<Rightarrow> ((field, index\<lparr>index_values := Some vs'\<rparr>) # rest', m \<or> modified))
           | None \<Rightarrow> ((field, index) # rest', modified)))"

definition removeItem :: "LocalTableDef \<Rightarrow> jsval \<Rightarrow> AsyncStorage \<Rightarrow> LocalTableDef \<times> AsyncStorage" where
  "removeItem table i st =
     (case remove_from_indexes i (indexes table) of
        (ixs, modified) \<Rightarrow>
          (let table1 = table\<lparr>indexes := ixs\<rparr>;
               st1 = (if modified then AsyncStorage_setItem (name table1) (TableJson table1) st else st)
           in (table1, AsyncStorage_removeItem (item_key (name table1) i) st1)))"

subsection \<open>Paginated listing\<close>

text \<open>
  The loop that collects the keys of a page. Reading \<^verbatim>\<open>index.values[i].id\<close> at a
  negative \<open>i\<close> raises a TypeError. The result is the keys and the final \<open>i\<close>.
\<close>

function collect_keys :: "string \<Rightarrow> LocalIndexKey list \<Rightarrow> int \<Rightarrow> int \<Rightarrow> string list \<Rightarrow> error + (string list \<times> int)" where
  "collect_keys nm vals i cnt keys =
     (if i < int (length vals) \<and> cnt > 0 then
        (if i < 0 then Inl TypeError
         else collect_keys nm vals (i + 1) (cnt - 1) (keys @ [item_key nm (key_id (vals ! nat i))]))
      else Inr (keys, i))"
  by pat_completeness auto
termination
  by (relation "measure (\<lambda>(nm, vals, i, cnt, keys). nat cnt)") auto

declare collect_keys.simps [simp del]

text \<open>
  \<^verbatim>\<open>continuation ? parseInt(continuation) : 0\<close>: the offset a call starts at. A
  continuation that is absent or empty gives 0; \<open>None\<close> is NaN.
\<close>

definition startIndex :: "string option \<Rightarrow> int option" where
  "startIndex cont = (case cont of None \<Rightarrow> Some 0 | Some c \<Rightarrow> if c = [] then Some 0 else parseInt c)"

definition listItems :: "AsyncStorage \<Rightarrow> LocalTableDef \<Rightarrow> string \<Rightarrow> int option \<Rightarrow> string option \<Rightarrow> error + StorageResults" where
  "listItems st table indexName count0 cont =
     (let cnt = (case count0 of None \<Rightarrow> 10 | Some c \<Rightarrow> c)
      in case map_of (indexes table) indexName of
           None \<Rightarrow> Inl (NotFound indexName)
         | Some index \<Rightarrow>
             (case (index_values index, startIndex cont) of
                (Some vals, Some start) \<Rightarrow>
                  if start < int (length vals) then
                    (case collect_keys (name table) vals start cnt [] of
                       Inl e \<Rightarrow> Inl e
                     | Inr (keys, i) \<Rightarrow>
                         Inr \<lparr>items = map snd (AsyncStorage_multiGet keys st),
                              continuation = (if i < int (length vals) then Some (show_int i) else None)\<rparr>)
                  else Inr \<lparr>items = [], continuation = None\<rparr>
              | _ \<Rightarrow> Inr \<lparr>items = [], continuation = None\<rparr>))"

text \<open>
  A caller that pages through an index: it starts with no continuation and passes each
  continuation it gets to the next call, until a page comes without one. The loop may run
  forever, so it takes fuel; \<open>None\<close> is the fuel running out.
\<close>

fun listPages :: "nat \<Rightarrow> AsyncStorage \<Rightarrow> LocalTableDef \<Rightarrow> string \<Rightarrow> int option \<Rightarrow> string option \<Rightarrow> (error + StorageResults list) option" where
  "listPages 0 st table indexName cnt cont = None"
| "listPages (Suc fuel) st table indexName cnt cont =
     (case listItems st table indexName cnt cont of
        Inl e \<Rightarrow> Some (Inl e)
      | Inr r \<Rightarrow>
          (case continuation r of
             None \<Rightarrow> Some (Inr [r])
           | Some c \<Rightarrow>
               (case listPages fuel st table indexName cnt (Some c) of
                  None \<Rightarrow> None
                | Some (Inl e) \<Rightarrow> Some (Inl e)
                | Some (Inr rs) \<Rightarrow> Some (Inr (r # rs)))))"

subsection \<open>Notions the properties are stated with\<close>

text \<open>A decimal digit character.\<close>

definition dec_digit :: "char \<Rightarrow> bool" where
  "dec_digit c = (48 \<le> (of_char c :: nat) \<and> (of_char c :: nat) \<le> 57)"

text \<open>An index holds at most one entry that \<^verbatim>\<open>==\<close> the id.\<close>

definition at_most_one_entry :: "jsval \<Rightarrow> (string \<times> LocalIndexDef) list \<Rightarrow> bool" where
  "at_most_one_entry i ixs =
     list_all (\<lambda>(field, index).
        case index_values index of
          None \<Rightarrow> True
        | Some vs \<Rightarrow> length (filter (\<lambda>e. loose_eq (key_id e) i) vs) \<le> 1) ixs"

text \<open>
  An id that no other spelling equals: a number, or a string that is not numeric or is
  the decimal form of its number. Among such ids \<^verbatim>\<open>==\<close> holds exactly when the item
  keys are the same.
\<close>

fun canonical_id :: "jsval \<Rightarrow> bool" where
  "canonical_id (JNum n) = True"
| "canonical_id (JStr s) = (case StringToNumber s of None \<Rightarrow> True | Some n \<Rightarrow> s = show_int n)"
| "canonical_id v = False"


fun is_string :: "jsval \<Rightarrow> bool" where
  "is_string (JStr s) = True"
| "is_string v = False"

text \<open>
  What a collation must satisfy for \<^verbatim>\<open>sort\<close> to have a defined result: comparing the
  other way round does not give the same strict answer, and \<open>\<le>\<close> is transitive.
  \<open>code_unit_order\<close> is one collation, used in the examples.
\<close>

definition collation :: "collation \<Rightarrow> bool" where
  "collation lc \<longleftrightarrow>
     (\<forall>a b. 0 \<le> lc a b \<longrightarrow> lc b a \<le> 0) \<and>
     (\<forall>a b c. lc a b \<le> 0 \<longrightarrow> lc b c \<le> 0 \<longrightarrow> lc a c \<le> 0)"

fun code_unit_order :: "string \<Rightarrow> string \<Rightarrow> int" where
  "code_unit_order [] [] = 0"
| "code_unit_order [] (b # bs) = - 1"
| "code_unit_order (a # as) [] = 1"
| "code_unit_order (a # as) (b # bs) =
     (if (of_char a :: nat) < of_char b then - 1
      else if (of_char b :: nat) < of_char a then 1
      else code_unit_order as bs)"

text \<open>
  The order of an index, from the specification: numbers increasing or decreasing for a
  numerical index, strings increasing or decreasing in the collation otherwise.
\<close>

definition policy_le :: "collation \<Rightarrow> bool \<Rightarrow> bool \<Rightarrow> LocalIndexKey \<Rightarrow> LocalIndexKey \<Rightarrow> bool" where
  "policy_le lc numer asc a b =
     (case (key_value a, key_value b) of
        (JNum x, JNum y) \<Rightarrow> numer \<and> (if asc then x \<le> y else y \<le> x)
      | (JStr s, JStr t) \<Rightarrow> \<not> numer \<and> (if asc then lc s t \<le> 0 else lc t s \<le> 0)
      | _ \<Rightarrow> False)"

definition the_values :: "LocalIndexDef \<Rightarrow> LocalIndexKey list" where
  "the_values index = (case index_values index of None \<Rightarrow> [] | Some vs \<Rightarrow> vs)"

definition entry_keys :: "string \<Rightarrow> LocalIndexKey list \<Rightarrow> string list" where
  "entry_keys nm vs = map (\<lambda>e. item_key nm (key_id e)) vs"

text \<open>The keys of the items that are live in the table \<open>nm\<close>.\<close>

definition live_keys :: "string \<Rightarrow> AsyncStorage \<Rightarrow> string set" where
  "live_keys nm st = {k \<in> set (AsyncStorage_getAllKeys st). prefix (nm @ ''|'') k}"

text \<open>
  The index ordering invariant for one index: its entries are sorted by its policy, and
  the entries and the live items correspond one to one through the item key.
\<close>

definition index_ok :: "collation \<Rightarrow> string \<Rightarrow> AsyncStorage \<Rightarrow> LocalIndexDef \<Rightarrow> bool" where
  "index_ok lc nm st index \<longleftrightarrow>
     sorted_wrt (policy_le lc (numerical index = Some True) (ascending index = Some True)) (the_values index) \<and>
     distinct (entry_keys nm (the_values index)) \<and>
     set (entry_keys nm (the_values index)) = live_keys nm st"

definition indexes_ok :: "collation \<Rightarrow> LocalTableDef \<Rightarrow> AsyncStorage \<Rightarrow> bool" where
  "indexes_ok lc table st \<longleftrightarrow> (\<forall>(field, index) \<in> set (indexes table). index_ok lc (name table) st index)"

text \<open>
  What the index maintenance keeps of an index, for the set \<open>K\<close> of live item keys: the
  invariant above, and the two facts that carry it from call to call: the values are
  numbers in a numerical index and strings in a string index, and the ids are canonical.
\<close>

definition entry_typed :: "bool \<Rightarrow> LocalIndexKey \<Rightarrow> bool" where
  "entry_typed numer e = (if numer then is_number (key_value e) else is_string (key_value e))"

definition index_inv :: "collation \<Rightarrow> string \<Rightarrow> string set \<Rightarrow> LocalIndexDef \<Rightarrow> bool" where
  "index_inv lc nm K index \<longleftrightarrow>
     sorted_wrt (policy_le lc (numerical index = Some True) (ascending index = Some True)) (the_values index) \<and>
     distinct (entry_keys nm (the_values index)) \<and>
     set (entry_keys nm (the_values index)) = K \<and>
     list_all (entry_typed (numerical index = Some True)) (the_values index) \<and>
     list_all (\<lambda>e. canonical_id (key_id e)) (the_values index)"

text \<open>The part of the indexes that no call changes: their names and their policies.\<close>

definition index_flags :: "(string \<times> LocalIndexDef) list \<Rightarrow> (string \<times> bool option \<times> bool option) list" where
  "index_flags ixs = map (\<lambda>(field, index). (field, ascending index, numerical index)) ixs"

text \<open>A table that was just defined: no index has an entry and no item is stored.\<close>

definition fresh_table :: "LocalTableDef \<Rightarrow> AsyncStorage \<Rightarrow> bool" where
  "fresh_table table st \<longleftrightarrow>
     list_all (\<lambda>(field, index). the_values index = []) (indexes table) \<and>
     list_all (\<lambda>k. \<not> prefix (name table @ ''|'') k) (AsyncStorage_getAllKeys st)"

text \<open>
  Sequences of calls against one table definition. The caller goes on with the table
  definition and the storage as each call leaves them, whether the call failed or not.
\<close>

datatype call = SetItem item | RemoveItem jsval

fun run_call :: "collation \<Rightarrow> call \<Rightarrow> LocalTableDef \<times> AsyncStorage \<Rightarrow> LocalTableDef \<times> AsyncStorage" where
  "run_call lc (SetItem item) (table, st) =
     (case setItem lc table item st of (r, table', item', st') \<Rightarrow> (table', st'))"
| "run_call lc (RemoveItem i) (table, st) = removeItem table i st"

definition run_calls :: "collation \<Rightarrow> call list \<Rightarrow> LocalTableDef \<times> AsyncStorage \<Rightarrow> LocalTableDef \<times> AsyncStorage" where
  "run_calls lc calls s = fold (run_call lc) calls s"

fun setItem_each :: "collation \<Rightarrow> LocalTableDef \<Rightarrow> item list \<Rightarrow> AsyncStorage \<Rightarrow> (error + unit) list \<times> LocalTableDef \<times> item list \<times> AsyncStorage" where
  "setItem_each lc table [] st = ([], table, [], st)"
| "setItem_each lc table (item # rest) st =
     (case setItem lc table item st of
        (r, table1, item1, st1) \<Rightarrow>
          (case setItem_each lc table1 rest st1 of
             (rs, table2, items2, st2) \<Rightarrow> (r # rs, table2, item1 # items2, st2)))"

text \<open>
  The calls the corrected invariant is about: ids that are absent or canonical, and a
  string in every field that a string index sorts by (for a string index on \<open>id\<close>
  itself, an id that is there, since an assigned id is a number).
\<close>

definition string_fields :: "LocalTableDef \<Rightarrow> string list" where
  "string_fields table = map fst (filter (\<lambda>(field, index). numerical index \<noteq> Some True) (indexes table))"

fun well_formed_call :: "LocalTableDef \<Rightarrow> call \<Rightarrow> bool" where
  "well_formed_call table (SetItem item) =
     ((falsy (get_field item ''id'') \<or> canonical_id (get_field item ''id'')) \<and>
      list_all (\<lambda>field. is_string (get_field item field) \<and>
                        \<not> (field = ''id'' \<and> falsy (get_field item ''id'')))
               (string_fields table))"
| "well_formed_call table (RemoveItem i) = canonical_id i"

text \<open>
  What every call keeps, relative to the table definition \<open>table0\<close> the calls started
  from: the name, the names and policies of the indexes, and the invariant of every index
  for the keys that are live in the storage.
\<close>

definition table_inv :: "collation \<Rightarrow> LocalTableDef \<Rightarrow> LocalTableDef \<Rightarrow> AsyncStorage \<Rightarrow> bool" where
  "table_inv lc table0 table st \<longleftrightarrow>
     name table = name table0 \<and>
     index_flags (indexes table) = index_flags (indexes table0) \<and>
     (\<forall>(field, index) \<in> set (indexes table). index_inv lc (name table) (live_keys (name table) st) index)"

text \<open>The number of pages of \<open>c\<close> items that \<open>m\<close> items fill: \<open>m / c\<close> rounded up.\<close>

definition ceil_div :: "nat \<Rightarrow> nat \<Rightarrow> nat" where
  "ceil_div m c = (m + c - 1) div c"

text \<open>Two items are deep-equal when every property reads the same in both.\<close>

definition deep_equal :: "item \<Rightarrow> item \<Rightarrow> bool" where
  "deep_equal a b \<longleftrightarrow> (\<forall>f. get_field a f = get_field b f)"

text \<open>Index definitions and entries written as in the source, for the examples.\<close>

definition mk_index :: "bool \<Rightarrow> bool \<Rightarrow> LocalIndexKey list \<Rightarrow> LocalIndexDef" where
  "mk_index asc numer vs = \<lparr>ascending = Some asc, numerical = Some numer, index_values = Some vs\<rparr>"

definition mk_entry :: "jsval \<Rightarrow> jsval \<Rightarrow> LocalIndexKey" where
  "mk_entry i v = \<lparr>key_id = i, key_value = v\<rparr>"

text \<open>
  The table of the module's own test: a string index on \<open>name\<close> and a numerical index on
  \<open>age\<close>, both ascending; three items without ids; and the table definition and the storage
  after the three have been saved.
\<close>

definition fresh_test_table :: LocalTableDef where
  "fresh_test_table =
     \<lparr>name = ''test'', nextId = 1,
      indexes = [(''name'', \<lparr>ascending = Some True, numerical = None, index_values = None\<rparr>),
                 (''age'', \<lparr>ascending = Some True, numerical = Some True, index_values = None\<rparr>)]\<rparr>"

definition steve :: item where
  "steve = [(''name'', JStr ''steve''), (''age'', JNum 51)]"

definition annabelle :: item where
  "annabelle = [(''name'', JStr ''annabelle''), (''age'', JNum 4)]"

definition donna :: item where
  "donna = [(''name'', JStr ''donna''), (''age'', JNum 48)]"

definition test_table :: LocalTableDef where
  "test_table =
     \<lparr>name = ''test'', nextId = 4,
      indexes =
        [(''name'', \<lparr>ascending = Some True, numerical = None,
                     index_values = Some [mk_entry (JNum 2) (JStr ''annabelle''),
                                          mk_entry (JNum 3) (JStr ''donna''),
                                          mk_entry (JNum 1) (JStr ''steve'')]\<rparr>),
         (''age'', \<lparr>ascending = Some True, numerical = Some True,
                    index_values = Some [mk_entry (JNum 2) (JNum 4),
                                         mk_entry (JNum 3) (JNum 48),
                                         mk_entry (JNum 1) (JNum 51)]\<rparr>)]\<rparr>"

definition test_storage :: AsyncStorage where
  "test_storage =
     [(''test|1'', ItemJson (steve @ [(''id'', JNum 1)])),
      (''test'', TableJson test_table),
      (''test|2'', ItemJson (annabelle @ [(''id'', JNum 2)])),
      (''test|3'', ItemJson (donna @ [(''id'', JNum 3)]))]"

section \<open>Properties\<close>

subsection \<open>The storage\<close>

lemma getItem_setItem:
  "AsyncStorage_getItem (AsyncStorage_setItem k v st) k' =
     (if k' = k then Some v else AsyncStorage_getItem st k')"
  by (simp add: AsyncStorage_getItem_def AsyncStorage_setItem_def update_conv')

lemma getItem_removeItem:
  "AsyncStorage_getItem (AsyncStorage_removeItem k st) k' =
     (if k' = k then None else AsyncStorage_getItem st k')"
  by (simp add: AsyncStorage_getItem_def AsyncStorage_removeItem_def delete_conv')

lemma getItem_multiRemove:
  "AsyncStorage_getItem (AsyncStorage_multiRemove ks st) k =
     (if k \<in> set ks then None else AsyncStorage_getItem st k)"
  unfolding AsyncStorage_multiRemove_def
  by (induction ks arbitrary: st) (auto simp: getItem_removeItem)

lemma getItem_None_iff:
  "AsyncStorage_getItem st k = None \<longleftrightarrow> k \<notin> set (AsyncStorage_getAllKeys st)"
  by (simp add: AsyncStorage_getItem_def AsyncStorage_getAllKeys_def map_of_eq_None_iff)

lemma item_key_neq_name: "item_key nm i \<noteq> nm"
  by (simp add: item_key_def)

subsection \<open>Table lifecycle\<close>

text \<open>
  Claim C8. \<^verbatim>\<open>defineTable\<close> is idempotent. When something is stored under the name it
  writes nothing and the storage is as before, whatever index definitions it is called
  with. When nothing is stored under the name it stores the definition with the name,
  \<open>nextId = 1\<close> and the given indexes (none when they are omitted) under the name, and
  touches no other key. So a second call, with any index definitions, changes nothing.
\<close>

theorem defineTable_idempotent:
  "(\<forall>v. AsyncStorage_getItem st nm = Some v \<longrightarrow> defineTable nm ixs st = st) \<and>
   (AsyncStorage_getItem st nm = None \<longrightarrow>
      AsyncStorage_getItem (defineTable nm ixs st) nm =
        Some (TableJson \<lparr>name = nm, nextId = 1, indexes = (case ixs of None \<Rightarrow> [] | Some d \<Rightarrow> d)\<rparr>) \<and>
      (\<forall>k. k \<noteq> nm \<longrightarrow> AsyncStorage_getItem (defineTable nm ixs st) k = AsyncStorage_getItem st k)) \<and>
   defineTable nm ixs' (defineTable nm ixs st) = defineTable nm ixs st"
proof (cases "AsyncStorage_getItem st nm")
  case None
  then show ?thesis by (simp add: defineTable_def getItem_setItem)
next
  case (Some v)
  then show ?thesis by (simp add: defineTable_def)
qed

theorem defineTable_idempotent_witness:
  "defineTable ''log'' (Some [(''timestamp'', mk_index True True [])])
     [(''log'', TableJson \<lparr>name = ''log'', nextId = 7, indexes = []\<rparr>)]
     = [(''log'', TableJson \<lparr>name = ''log'', nextId = 7, indexes = []\<rparr>)] \<and>
   AsyncStorage_getItem (defineTable ''log'' None []) ''log''
     = Some (TableJson \<lparr>name = ''log'', nextId = 1, indexes = []\<rparr>) \<and>
   AsyncStorage_getItem (defineTable ''log'' None []) ''other'' = None \<and>
   defineTable ''log'' (Some [(''timestamp'', mk_index True True [])]) (defineTable ''log'' None [])
     = defineTable ''log'' None []"
  using defineTable_idempotent
          [where st = "[(''log'', TableJson \<lparr>name = ''log'', nextId = 7, indexes = []\<rparr>)]"
             and nm = "''log''" and ixs = "Some [(''timestamp'', mk_index True True [])]"]
        defineTable_idempotent
          [where st = "[]" and nm = "''log''" and ixs = None
             and ixs' = "Some [(''timestamp'', mk_index True True [])]"]
  by (simp add: AsyncStorage_getItem_def)




subsection \<open>Reading and removing items\<close>

lemma getItem_eq: "getItem st table i = AsyncStorage_getItem st (item_key (name table) i)"
  by (simp add: getItem_def Let_def split: option.splits)

lemma splice_first_modified:
  "snd (splice_first i vs) \<longleftrightarrow> (\<exists>e \<in> set vs. loose_eq (key_id e) i)"
  by (induction vs) (auto simp: case_prod_beta)

lemma splice_first_unique:
  "length (filter (\<lambda>e. loose_eq (key_id e) i) vs) \<le> 1 \<Longrightarrow>
   fst (splice_first i vs) = filter (\<lambda>e. \<not> loose_eq (key_id e) i) vs"
proof (induction vs)
  case Nil
  then show ?case by simp
next
  case (Cons e es)
  show ?case
  proof (cases "loose_eq (key_id e) i")
    case True
    with Cons.prems have "filter (\<lambda>e. loose_eq (key_id e) i) es = []" by simp
    then have "filter (\<lambda>e. \<not> loose_eq (key_id e) i) es = es"
      by (simp add: filter_empty_conv filter_id_conv)
    with True show ?thesis by simp
  next
    case False
    with Cons show ?thesis by (simp add: case_prod_beta)
  qed
qed

lemma remove_from_indexes_unique:
  "at_most_one_entry i ixs \<Longrightarrow>
   fst (remove_from_indexes i ixs) =
     map (\<lambda>(field, index).
            (field, index\<lparr>index_values := map_option (filter (\<lambda>e. \<not> loose_eq (key_id e) i)) (index_values index)\<rparr>))
         ixs"
proof (induction ixs)
  case Nil
  then show ?case by simp
next
  case (Cons p ixs)
  obtain field index where p: "p = (field, index)" by (cases p)
  from Cons.prems have rest: "at_most_one_entry i ixs"
    by (simp add: at_most_one_entry_def)
  show ?case
  proof (cases "index_values index")
    case None
    with Cons.IH[OF rest] p show ?thesis by (simp add: case_prod_beta)
  next
    case (Some vs)
    with Cons.prems p have "length (filter (\<lambda>e. loose_eq (key_id e) i) vs) \<le> 1"
      by (simp add: at_most_one_entry_def)
    from splice_first_unique[OF this] Cons.IH[OF rest] p Some show ?thesis
      by (simp add: case_prod_beta)
  qed
qed

lemma removeItem_name: "name (fst (removeItem table i st)) = name table"
  by (simp add: removeItem_def Let_def case_prod_beta)

lemma removeItem_storage:
  "AsyncStorage_getItem (snd (removeItem table i st)) k =
     (if k = item_key (name table) i then None
      else if k = name table \<and> snd (remove_from_indexes i (indexes table))
        then Some (TableJson (fst (removeItem table i st)))
      else AsyncStorage_getItem st k)"
  by (simp add: removeItem_def Let_def getItem_removeItem getItem_setItem item_key_neq_name case_prod_beta)

text \<open>
  Claim C7. \<^verbatim>\<open>getItem\<close> returns what is stored under the key of the id, and the absent
  result when nothing is: for an id whose key was never written, and for an id that
  \<^verbatim>\<open>removeItem\<close> has just removed. The function has no failure among its results.
\<close>

theorem getItem_absent:
  "getItem st table i = AsyncStorage_getItem st (item_key (name table) i) \<and>
   (item_key (name table) i \<notin> set (AsyncStorage_getAllKeys st) \<longrightarrow> getItem st table i = None) \<and>
   getItem (snd (removeItem table i st)) (fst (removeItem table i st)) i = None"
  by (simp add: getItem_eq removeItem_name removeItem_storage getItem_None_iff[symmetric])

theorem getItem_absent_witness:
  "getItem [(''log'', TableJson \<lparr>name = ''log'', nextId = 2, indexes = []\<rparr>),
            (''log|1'', ItemJson [(''id'', JNum 1)])]
     \<lparr>name = ''log'', nextId = 2, indexes = []\<rparr> (JStr ''2'') = None"
proof -
  let ?T = "\<lparr>name = ''log'', nextId = 2, indexes = []\<rparr>"
  let ?S = "[(''log'', TableJson ?T), (''log|1'', ItemJson [(''id'', JNum 1)])]"
  have "item_key (name ?T) (JStr ''2'') \<notin> set (AsyncStorage_getAllKeys ?S)"
    by (simp add: item_key_def AsyncStorage_getAllKeys_def)
  with getItem_absent[where st = ?S and table = ?T and i = "JStr ''2''"] show ?thesis by blast
qed

text \<open>
  Claim C5. \<^verbatim>\<open>removeItem\<close> deletes the key of the item; in every index it removes the
  entry whose id matches; the table definition is written back when an entry was removed,
  and no other key changes. The entry is the first one that \<^verbatim>\<open>==\<close>
  the id, so where an index holds at most one such entry, every index is left with its
  other entries, in their order, and nothing else of the table definition changes.
  \<^verbatim>\<open>deleteTable\<close> removes the key \<open>nm\<close> and every key that starts with \<open>nm|\<close>, keeps
  every other key, and leaves the storage as it is when there is no such key.
\<close>

theorem deletion_cascade:
  "AsyncStorage_getItem (snd (removeItem table i st)) (item_key (name table) i) = None \<and>
   (\<forall>k. k \<noteq> item_key (name table) i \<and> k \<noteq> name table \<longrightarrow>
        AsyncStorage_getItem (snd (removeItem table i st)) k = AsyncStorage_getItem st k) \<and>
   (at_most_one_entry i (indexes table) \<longrightarrow>
      fst (removeItem table i st) =
        table\<lparr>indexes :=
          map (\<lambda>(field, index).
                 (field, index\<lparr>index_values :=
                    map_option (filter (\<lambda>e. \<not> loose_eq (key_id e) i)) (index_values index)\<rparr>))
              (indexes table)\<rparr>) \<and>
   (\<forall>k. AsyncStorage_getItem (deleteTable nm st) k =
        (if k = nm \<or> prefix (nm @ ''|'') k then None else AsyncStorage_getItem st k)) \<and>
   ((\<forall>k \<in> set (AsyncStorage_getAllKeys st). k \<noteq> nm \<and> \<not> prefix (nm @ ''|'') k) \<longrightarrow>
      deleteTable nm st = st)"
proof -
  have del: "AsyncStorage_getItem (deleteTable nm st) k =
        (if k = nm \<or> prefix (nm @ ''|'') k then None else AsyncStorage_getItem st k)" for k
  proof (cases "filter (\<lambda>k. k = nm \<or> startsWith k (nm @ ''|'')) (AsyncStorage_getAllKeys st) = []")
    case True
    then have "\<forall>k \<in> set (AsyncStorage_getAllKeys st). \<not> (k = nm \<or> startsWith k (nm @ ''|''))"
      by (simp add: filter_empty_conv)
    then have "k = nm \<or> startsWith k (nm @ ''|'') \<Longrightarrow> AsyncStorage_getItem st k = None"
      unfolding getItem_None_iff by blast
    with True show ?thesis by (auto simp: deleteTable_def Let_def startsWith_def)
  next
    case False
    then show ?thesis
      by (auto simp: deleteTable_def Let_def getItem_multiRemove getItem_None_iff startsWith_def)
  qed
  have noop: "(\<forall>k \<in> set (AsyncStorage_getAllKeys st). k \<noteq> nm \<and> \<not> prefix (nm @ ''|'') k) \<longrightarrow>
      deleteTable nm st = st"
    by (simp add: deleteTable_def Let_def filter_empty_conv startsWith_def)
  have ix: "at_most_one_entry i (indexes table) \<longrightarrow>
      fst (removeItem table i st) =
        table\<lparr>indexes :=
          map (\<lambda>(field, index).
                 (field, index\<lparr>index_values :=
                    map_option (filter (\<lambda>e. \<not> loose_eq (key_id e) i)) (index_values index)\<rparr>))
              (indexes table)\<rparr>"
    using remove_from_indexes_unique[of i "indexes table"]
    by (simp add: removeItem_def Let_def case_prod_beta)
  show ?thesis using del noop ix by (simp add: removeItem_storage)
qed

theorem deletion_cascade_witness:
  "AsyncStorage_getItem
     (snd (removeItem \<lparr>name = ''log'', nextId = 3,
                       indexes = [(''timestamp'', mk_index False True [mk_entry (JNum 2) (JNum 20), mk_entry (JNum 1) (JNum 10)])]\<rparr>
             (JNum 1)
             [(''log'', TableJson \<lparr>name = ''log'', nextId = 3, indexes = []\<rparr>),
              (''log|1'', ItemJson [(''id'', JNum 1)]),
              (''logs'', TableJson \<lparr>name = ''logs'', nextId = 1, indexes = []\<rparr>)]))
     ''log|1'' = None \<and>
   fst (removeItem \<lparr>name = ''log'', nextId = 3,
                       indexes = [(''timestamp'', mk_index False True [mk_entry (JNum 2) (JNum 20), mk_entry (JNum 1) (JNum 10)])]\<rparr>
             (JNum 1)
             [(''log'', TableJson \<lparr>name = ''log'', nextId = 3, indexes = []\<rparr>),
              (''log|1'', ItemJson [(''id'', JNum 1)]),
              (''logs'', TableJson \<lparr>name = ''logs'', nextId = 1, indexes = []\<rparr>)])
     = \<lparr>name = ''log'', nextId = 3, indexes = [(''timestamp'', mk_index False True [mk_entry (JNum 2) (JNum 20)])]\<rparr> \<and>
   AsyncStorage_getItem
     (deleteTable ''log''
        [(''log'', TableJson \<lparr>name = ''log'', nextId = 3, indexes = []\<rparr>),
         (''log|1'', ItemJson [(''id'', JNum 1)]),
         (''logs'', TableJson \<lparr>name = ''logs'', nextId = 1, indexes = []\<rparr>)]) ''log|1'' = None \<and>
   AsyncStorage_getItem
     (deleteTable ''log''
        [(''log'', TableJson \<lparr>name = ''log'', nextId = 3, indexes = []\<rparr>),
         (''log|1'', ItemJson [(''id'', JNum 1)]),
         (''logs'', TableJson \<lparr>name = ''logs'', nextId = 1, indexes = []\<rparr>)]) ''logs''
     = Some (TableJson \<lparr>name = ''logs'', nextId = 1, indexes = []\<rparr>) \<and>
   deleteTable ''lo''
        [(''log'', TableJson \<lparr>name = ''log'', nextId = 3, indexes = []\<rparr>),
         (''log|1'', ItemJson [(''id'', JNum 1)]),
         (''logs'', TableJson \<lparr>name = ''logs'', nextId = 1, indexes = []\<rparr>)]
     = [(''log'', TableJson \<lparr>name = ''log'', nextId = 3, indexes = []\<rparr>),
         (''log|1'', ItemJson [(''id'', JNum 1)]),
         (''logs'', TableJson \<lparr>name = ''logs'', nextId = 1, indexes = []\<rparr>)]"
proof -
  let ?T = "\<lparr>name = ''log'', nextId = 3,
              indexes = [(''timestamp'', mk_index False True [mk_entry (JNum 2) (JNum 20), mk_entry (JNum 1) (JNum 10)])]\<rparr>"
  let ?S = "[(''log'', TableJson \<lparr>name = ''log'', nextId = 3, indexes = []\<rparr>),
             (''log|1'', ItemJson [(''id'', JNum 1)]),
             (''logs'', TableJson \<lparr>name = ''logs'', nextId = 1, indexes = []\<rparr>)]"
  have key: "item_key (name ?T) (JNum 1) = ''log|1''"
    by code_simp
  have one: "at_most_one_entry (JNum 1) (indexes ?T)"
    by (simp add: at_most_one_entry_def mk_index_def mk_entry_def)
  have none: "\<forall>k \<in> set (AsyncStorage_getAllKeys ?S). k \<noteq> ''lo'' \<and> \<not> prefix (''lo'' @ ''|'') k"
    by (simp add: AsyncStorage_getAllKeys_def)
  note a = deletion_cascade [where table = ?T and i = "JNum 1" and st = ?S and nm = "''log''"]
  note b = deletion_cascade [where table = ?T and i = "JNum 1" and st = ?S and nm = "''lo''"]
  have 1: "AsyncStorage_getItem (snd (removeItem ?T (JNum 1) ?S)) ''log|1'' = None"
    using a key by simp
  have 2: "fst (removeItem ?T (JNum 1) ?S) =
      \<lparr>name = ''log'', nextId = 3, indexes = [(''timestamp'', mk_index False True [mk_entry (JNum 2) (JNum 20)])]\<rparr>"
    using a one by (simp add: mk_index_def mk_entry_def)
  have 3: "AsyncStorage_getItem (deleteTable ''log'' ?S) ''log|1'' = None"
    using a by simp
  have 4: "AsyncStorage_getItem (deleteTable ''log'' ?S) ''logs'' = Some (TableJson \<lparr>name = ''logs'', nextId = 1, indexes = []\<rparr>)"
    using a by (simp add: AsyncStorage_getItem_def)
  have 5: "deleteTable ''lo'' ?S = ?S"
    using b none by blast
  show ?thesis using 1 2 3 4 5 by blast
qed

subsection \<open>Numbers and their decimal form\<close>

lemma dec_digit_digit_char: "d < 10 \<Longrightarrow> dec_digit (digit_char d)"
  by (simp add: dec_digit_def digit_char_def)

lemma digit_of_digit_char: "d < 10 \<Longrightarrow> digit_of (digit_char d) = Some d"
  by (simp add: digit_of_def digit_char_def Let_def)

lemma dec_digit_props:
  assumes "dec_digit c"
  shows "is_digit 10 c" "\<not> is_ws c" "c \<noteq> CHR ''-''" "c \<noteq> CHR ''+''" "c \<noteq> CHR ''x''" "c \<noteq> CHR ''X''"
    "c \<noteq> CHR ''o''" "c \<noteq> CHR ''O''" "c \<noteq> CHR ''b''" "c \<noteq> CHR ''B''" "c \<noteq> CHR ''I''"
  using assms by (auto simp: dec_digit_def is_digit_def digit_of_def is_ws_def Let_def)

lemma show_nat_digits: "list_all dec_digit (show_nat n)"
proof (induction n rule: show_nat.induct)
  case (1 n)
  show ?case
  proof (cases "n < 10")
    case True
    then show ?thesis by (subst show_nat.simps) (simp add: dec_digit_digit_char)
  next
    case False
    with 1 show ?thesis by (subst show_nat.simps) (simp add: dec_digit_digit_char)
  qed
qed

lemma show_nat_nonempty: "show_nat n \<noteq> []"
  by (subst show_nat.simps) simp

lemma show_int_nonempty: "show_int i \<noteq> []"
  by (simp add: show_int_def show_nat_nonempty)

lemma digits_value_snoc: "digits_value r (s @ [c]) = r * digits_value r s + the (digit_of c)"
  by (simp add: digits_value_def)

lemma digits_value_show_nat: "digits_value 10 (show_nat n) = n"
proof (induction n rule: show_nat.induct)
  case (1 n)
  show ?case
  proof (cases "n < 10")
    case True
    then show ?thesis by (subst show_nat.simps) (simp add: digits_value_def digit_of_digit_char)
  next
    case False
    with 1 show ?thesis
      by (subst show_nat.simps) (simp add: digits_value_snoc digit_of_digit_char)
  qed
qed

lemma takeWhile_all: "list_all P xs \<Longrightarrow> takeWhile P xs = xs"
  by (induction xs) auto

lemma dropWhile_all: "list_all P xs \<Longrightarrow> dropWhile P xs = []"
  by (induction xs) auto

lemma digits_no_prefix:
  assumes "list_all dec_digit s" "\<not> dec_digit b"
  shows "take 2 s \<noteq> [a, b]"
proof (cases s)
  case Nil
  then show ?thesis by simp
next
  case (Cons c r)
  with assms show ?thesis by (cases r) auto
qed

lemma not_dec_digit: "\<not> dec_digit CHR ''x''" "\<not> dec_digit CHR ''X''" "\<not> dec_digit CHR ''o''"
    "\<not> dec_digit CHR ''O''" "\<not> dec_digit CHR ''b''" "\<not> dec_digit CHR ''B''"
  by (simp_all add: dec_digit_def)

lemma parseInt_digits:
  assumes "list_all dec_digit s" "s \<noteq> []"
  shows "parseInt s = Some (int (digits_value 10 s))"
proof -
  obtain c r where s: "s = c # r" using assms(2) by (cases s) auto
  have c: "dec_digit c" using assms(1) s by auto
  have hex: "\<not> (take 2 s = ''0x'' \<or> take 2 s = ''0X'')"
    using digits_no_prefix[OF assms(1)] not_dec_digit by blast
  have all: "list_all (is_digit 10) s"
    using assms(1) by (simp add: list_all_iff dec_digit_props(1))
  have s0: "dropWhile is_ws s = s" using c s by (simp add: dec_digit_props(2))
  have neg: "(case s of c # r \<Rightarrow> c = CHR ''-'' | [] \<Rightarrow> False) = False"
    using c s by (simp add: dec_digit_props)
  have s1: "(case s of c # r \<Rightarrow> if c = CHR ''+'' \<or> c = CHR ''-'' then r else s | [] \<Rightarrow> s) = s"
    using c s by (simp add: dec_digit_props)
  show ?thesis
    by (simp add: parseInt_def Let_def s0 neg s1 hex takeWhile_all[OF all] assms(2))
qed

lemma parseInt_show_int: "parseInt (show_int i) = Some i"
proof (cases "i < 0")
  case False
  then show ?thesis
    by (simp add: show_int_def parseInt_digits show_nat_digits show_nat_nonempty digits_value_show_nat)
next
  case True
  let ?s = "show_nat (nat (- i))"
  have hex: "\<not> (take 2 ?s = ''0x'' \<or> take 2 ?s = ''0X'')"
    using digits_no_prefix[OF show_nat_digits] not_dec_digit by blast
  have all: "list_all (is_digit 10) ?s"
    using show_nat_digits[of "nat (- i)"] by (simp add: list_all_iff dec_digit_props(1))
  have ws: "\<not> is_ws CHR ''-''" by (simp add: is_ws_def)
  show ?thesis
    using True show_nat_nonempty[of "nat (- i)"]
    by (simp add: parseInt_def show_int_def Let_def ws hex takeWhile_all[OF all] digits_value_show_nat)
qed

lemma startIndex_show_int: "startIndex (Some (show_int i)) = Some i"
  by (simp add: startIndex_def show_int_nonempty parseInt_show_int)

lemma trim_id:
  assumes "s \<noteq> []" "\<not> is_ws (hd s)" "\<not> is_ws (last s)"
  shows "trim s = s"
proof -
  have 1: "dropWhile is_ws s = s" using assms(1,2) by (cases s) auto
  have 2: "dropWhile is_ws (rev s) = rev s" using assms(1,3) by (cases "rev s") (auto simp: hd_rev[symmetric])
  show ?thesis by (simp add: trim_def 1 2)
qed

lemma unsigned_decimal_digits:
  assumes "list_all dec_digit s" "s \<noteq> []"
  shows "unsigned_decimal s = Some (int (digits_value 10 s))"
proof -
  have all: "list_all (is_digit 10) s"
    using assms(1) by (simp add: list_all_iff dec_digit_props(1))
  have inf: "s \<noteq> ''Infinity''" using assms(1) by (auto simp: dec_digit_def)
  show ?thesis
    by (simp add: unsigned_decimal_def inf Let_def takeWhile_all[OF all] dropWhile_all[OF all] assms(2)
        exponent_part_def scale10_def)
qed

lemma StringToNumber_digits:
  assumes "list_all dec_digit s" "s \<noteq> []"
  shows "StringToNumber s = Some (int (digits_value 10 s))"
proof -
  obtain c r where s: "s = c # r" using assms(2) by (cases s) auto
  have c: "dec_digit c" using assms(1) s by auto
  have l: "dec_digit (last s)" using assms by (simp add: list_all_iff)
  have t: "trim s = s" using assms(2) c l s by (simp add: trim_id dec_digit_props(2))
  have pre: "\<not> (take 2 s = ''0x'' \<or> take 2 s = ''0X'')" "\<not> (take 2 s = ''0o'' \<or> take 2 s = ''0O'')"
     "\<not> (take 2 s = ''0b'' \<or> take 2 s = ''0B'')"
    using digits_no_prefix[OF assms(1)] not_dec_digit by blast+
  have sg: "(case s of c # r \<Rightarrow> if c = CHR ''+'' then unsigned_decimal r
                else if c = CHR ''-'' then map_option uminus (unsigned_decimal r)
                else unsigned_decimal s | [] \<Rightarrow> None) = unsigned_decimal s"
    using c s by (simp add: dec_digit_props)
  show ?thesis
    by (simp add: StringToNumber_def Let_def t pre sg assms unsigned_decimal_digits)
qed

lemma StringToNumber_show_int: "StringToNumber (show_int i) = Some i"
proof (cases "i < 0")
  case False
  then show ?thesis
    by (simp add: show_int_def StringToNumber_digits show_nat_digits show_nat_nonempty digits_value_show_nat)
next
  case True
  let ?s = "show_nat (nat (- i))"
  let ?t = "CHR ''-'' # ?s"
  have d: "list_all dec_digit ?s" by (rule show_nat_digits)
  have ne: "?s \<noteq> []" by (rule show_nat_nonempty)
  have l: "dec_digit (last ?s)" using d ne by (simp add: list_all_iff)
  have ws: "\<not> is_ws CHR ''-''" by (simp add: is_ws_def)
  have t: "trim ?t = ?t" using ne l by (simp add: trim_id ws dec_digit_props(2))
  have pre: "take 2 ?t \<noteq> ''0x''" "take 2 ?t \<noteq> ''0X''" "take 2 ?t \<noteq> ''0o''" "take 2 ?t \<noteq> ''0O''"
     "take 2 ?t \<noteq> ''0b''"  "take 2 ?t \<noteq> ''0B''"
    by (simp_all add: numeral_2_eq_2)
  show ?thesis
    using True pre
    by (simp add: StringToNumber_def show_int_def Let_def t unsigned_decimal_digits[OF d ne] digits_value_show_nat)
qed

lemma show_int_inj: "show_int a = show_int b \<Longrightarrow> a = b"
  by (metis StringToNumber_show_int option.inject)

lemma item_key_inj: "item_key nm a = item_key nm b \<longleftrightarrow> ToString a = ToString b"
  by (simp add: item_key_def)

lemma canonical_string:
  "canonical_id (JStr t) \<Longrightarrow> StringToNumber t = Some n \<longleftrightarrow> t = show_int n"
proof
  assume "canonical_id (JStr t)" "StringToNumber t = Some n"
  then show "t = show_int n" by simp
next
  assume "t = show_int n"
  then show "StringToNumber t = Some n" by (simp only: StringToNumber_show_int)
qed

lemma loose_eq_canonical:
  assumes "canonical_id a" "canonical_id b"
  shows "loose_eq a b \<longleftrightarrow> ToString a = ToString b"
proof (cases a)
  case a: (JNum n)
  show ?thesis
  proof (cases b)
    case (JNum m)
    with a show ?thesis using show_int_inj by auto
  next
    case (JStr t)
    with a assms(2) canonical_string[of t n] show ?thesis by auto
  qed (use assms in auto)
next
  case a: (JStr s)
  show ?thesis
  proof (cases b)
    case (JNum m)
    with a assms(1) canonical_string[of s m] show ?thesis by auto
  next
    case (JStr t)
    with a show ?thesis by simp
  qed (use assms in auto)
qed (use assms in auto)



subsection \<open>Pages\<close>

lemma collect_keys_result:
  "0 \<le> i \<Longrightarrow> i \<le> int (length vals) \<Longrightarrow>
   collect_keys nm vals i cnt keys =
     Inr (keys @ entry_keys nm (take (nat cnt) (drop (nat i) vals)),
          min (i + max cnt 0) (int (length vals)))"
proof (induction nm vals i cnt keys rule: collect_keys.induct)
  case (1 nm vals i cnt keys)
  show ?case
  proof (cases "i < int (length vals) \<and> cnt > 0")
    case True
    then have lt: "nat i < length vals" using "1.prems" by auto
    have d: "drop (nat i) vals = vals ! nat i # drop (nat (i + 1)) vals"
      using Cons_nth_drop_Suc[OF lt] "1.prems" by (simp add: nat_add_distrib)
    have t: "take (nat cnt) (vals ! nat i # drop (nat (i + 1)) vals)
               = vals ! nat i # take (nat (cnt - 1)) (drop (nat (i + 1)) vals)"
      using True by (cases "nat cnt") (simp_all add: nat_diff_distrib)
    have "collect_keys nm vals i cnt keys =
            collect_keys nm vals (i + 1) (cnt - 1) (keys @ [item_key nm (key_id (vals ! nat i))])"
      using True "1.prems" by (subst collect_keys.simps) simp
    also have "\<dots> = Inr ((keys @ [item_key nm (key_id (vals ! nat i))])
                         @ entry_keys nm (take (nat (cnt - 1)) (drop (nat (i + 1)) vals)),
                       min (i + 1 + max (cnt - 1) 0) (int (length vals)))"
      using True "1.prems" by (intro "1.IH") auto
    finally show ?thesis using True by (simp add: d t entry_keys_def max_def)
  next
    case False
    then have "collect_keys nm vals i cnt keys = Inr (keys, i)"
      by (subst collect_keys.simps) auto
    moreover have "take (nat cnt) (drop (nat i) vals) = []" using False "1.prems" by auto
    moreover have "min (i + max cnt 0) (int (length vals)) = i" using False "1.prems" by auto
    ultimately show ?thesis by (simp add: entry_keys_def)
  qed
qed

text \<open>What one call returns, from an offset inside the index.\<close>

lemma listItems_page:
  assumes "map_of (indexes table) ix = Some index" "index_values index = Some vs"
    and "startIndex cont = Some (int s)" "s < length vs"
  shows "listItems st table ix (Some cnt) cont =
           Inr \<lparr>items = map (AsyncStorage_getItem st) (entry_keys (name table) (take (nat cnt) (drop s vs))),
                continuation = (if int s + max cnt 0 < int (length vs) then Some (show_int (int s + max cnt 0)) else None)\<rparr>"
proof -
  have ck: "collect_keys (name table) vs (int s) cnt [] =
     Inr ([] @ entry_keys (name table) (take (nat cnt) (drop (nat (int s)) vs)),
          min (int s + max cnt 0) (int (length vs)))"
    using assms(4) by (intro collect_keys_result) auto
  show ?thesis
    using assms by (simp add: listItems_def Let_def ck AsyncStorage_multiGet_def comp_def min_def)
qed

lemma listItems_empty:
  assumes "map_of (indexes table) ix = Some index" "the_values index = []"
  shows "listItems st table ix cnt None = Inr \<lparr>items = [], continuation = None\<rparr>"
  using assms by (simp add: listItems_def Let_def the_values_def startIndex_def split: option.splits)

lemma ceil_div_small: "0 < m \<Longrightarrow> m \<le> c \<Longrightarrow> ceil_div m c = 1"
  by (simp add: ceil_div_def div_nat_eqI)

lemma ceil_div_step: "0 < c \<Longrightarrow> c < m \<Longrightarrow> ceil_div m c = Suc (ceil_div (m - c) c)"
proof -
  assume c: "0 < c" "c < m"
  then have "m + c - 1 = (m - c + c - 1) + c" by simp
  then have "(m + c - 1) div c = (m - c + c - 1) div c + 1"
    using c by (metis div_add_self2 less_numeral_extra(3))
  then show ?thesis by (simp add: ceil_div_def)
qed

lemma listPages_from:
  assumes ix: "map_of (indexes table) ix = Some index" "index_values index = Some vs"
    and c: "0 < cnt"
  shows "s < length vs \<Longrightarrow> startIndex cont = Some (int s) \<Longrightarrow> length vs - s < fuel \<Longrightarrow>
     \<exists>pages. listPages fuel st table ix (Some cnt) cont = Some (Inr pages) \<and> pages \<noteq> [] \<and>
        concat (map items pages) = map (AsyncStorage_getItem st) (entry_keys (name table) (drop s vs)) \<and>
        length pages = ceil_div (length vs - s) (nat cnt) \<and>
        (\<forall>r \<in> set (butlast pages). length (items r) = nat cnt \<and> continuation r \<noteq> None) \<and>
        continuation (last pages) = None \<and> length (items (last pages)) \<le> nat cnt"
proof (induction "length vs - s" arbitrary: s cont fuel rule: less_induct)
  case less
  let ?g = "\<lambda>xs. map (AsyncStorage_getItem st) (entry_keys (name table) xs)"
  let ?r = "\<lparr>items = ?g (take (nat cnt) (drop s vs)),
             continuation = (if int s + max cnt 0 < int (length vs) then Some (show_int (int s + max cnt 0)) else None)\<rparr>"
  obtain f where fuel: "fuel = Suc f" using less.prems(3) by (cases fuel) auto
  have page: "listItems st table ix (Some cnt) cont = Inr ?r"
    by (rule listItems_page[OF ix less.prems(2) less.prems(1)])
  have cn: "max cnt 0 = int (nat cnt)" "0 < nat cnt" using c by auto
  show ?case
  proof (cases "s + nat cnt < length vs")
    case False
    then have cont: "continuation ?r = None" using cn by simp
    have all: "take (nat cnt) (drop s vs) = drop s vs" using False by simp
    have "listPages fuel st table ix (Some cnt) cont = Some (Inr [?r])"
      unfolding fuel using page cont by simp
    moreover have "ceil_div (length vs - s) (nat cnt) = 1"
      using False less.prems(1) by (intro ceil_div_small) auto
    ultimately show ?thesis using cont all False by (simp add: entry_keys_def)
  next
    case True
    let ?c' = "Some (show_int (int (s + nat cnt)))"
    have cont: "continuation ?r = ?c'" using True cn by simp
    have "\<exists>pages. listPages f st table ix (Some cnt) ?c' = Some (Inr pages) \<and> pages \<noteq> [] \<and>
        concat (map items pages) = ?g (drop (s + nat cnt) vs) \<and>
        length pages = ceil_div (length vs - (s + nat cnt)) (nat cnt) \<and>
        (\<forall>r \<in> set (butlast pages). length (items r) = nat cnt \<and> continuation r \<noteq> None) \<and>
        continuation (last pages) = None \<and> length (items (last pages)) \<le> nat cnt"
      using True cn less.prems fuel
      by (intro less.hyps) (auto simp: startIndex_show_int)
    then obtain pages where p: "listPages f st table ix (Some cnt) ?c' = Some (Inr pages)" "pages \<noteq> []"
        "concat (map items pages) = ?g (drop (s + nat cnt) vs)"
        "length pages = ceil_div (length vs - (s + nat cnt)) (nat cnt)"
        "\<forall>r \<in> set (butlast pages). length (items r) = nat cnt \<and> continuation r \<noteq> None"
        "continuation (last pages) = None" "length (items (last pages)) \<le> nat cnt"
      by blast
    have run: "listPages fuel st table ix (Some cnt) cont = Some (Inr (?r # pages))"
      unfolding fuel using page cont p(1) by simp
    have "take (nat cnt) (drop s vs) @ drop (s + nat cnt) vs = drop s vs"
      by (metis add.commute append_take_drop_id drop_drop)
    then have cc: "concat (map items (?r # pages)) = ?g (drop s vs)"
      using p(3) by (simp add: entry_keys_def flip: map_append)
    have len: "length (?r # pages) = ceil_div (length vs - s) (nat cnt)"
      using p(4) True cn ceil_div_step[of "nat cnt" "length vs - s"] by simp
    have bl: "\<forall>r \<in> set (butlast (?r # pages)). length (items r) = nat cnt \<and> continuation r \<noteq> None"
      using p(2,5) True cn by (simp add: entry_keys_def)
    have la: "continuation (last (?r # pages)) = None \<and> length (items (last (?r # pages))) \<le> nat cnt"
      using p(2,6,7) by simp
    show ?thesis using run cc len bl la by blast
  qed
qed

text \<open>
  Claim C2, corrected. For an index with \<open>M\<close> entries and a page size \<open>cnt > 0\<close>, paging
  from no continuation ends (with any fuel above \<open>M\<close>) and returns the stored items of
  the entries in the order of the index, without repetition or gap: the pages
  concatenated are exactly the items of the entries. Every page but the last has \<open>cnt\<close>
  items and a continuation; the last has none. The number of pages is \<open>M / cnt\<close> rounded
  up when the index has an entry. For an empty index it is one, not zero: the first call
  returns an empty page with no continuation.
\<close>

theorem pagination_complete:
  assumes "map_of (indexes table) ix = Some index" and "0 < cnt"
    and "length (the_values index) < fuel"
  shows "\<exists>pages. listPages fuel st table ix (Some cnt) None = Some (Inr pages) \<and>
       concat (map items pages) =
         map (AsyncStorage_getItem st) (entry_keys (name table) (the_values index)) \<and>
       length pages = max 1 (ceil_div (length (the_values index)) (nat cnt)) \<and>
       (\<forall>r \<in> set (butlast pages). length (items r) = nat cnt \<and> continuation r \<noteq> None) \<and>
       continuation (last pages) = None \<and> length (items (last pages)) \<le> nat cnt"
proof (cases "the_values index = []")
  case True
  obtain f where fuel: "fuel = Suc f" using assms(3) by (cases fuel) auto
  have "listPages fuel st table ix (Some cnt) None = Some (Inr [\<lparr>items = [], continuation = None\<rparr>])"
    unfolding fuel using listItems_empty[OF assms(1) True] by simp
  moreover have "ceil_div 0 (nat cnt) = 0"
    using assms(2) by (simp add: ceil_div_def)
  ultimately show ?thesis using True by (simp add: entry_keys_def)
next
  case False
  then obtain vs where vs: "index_values index = Some vs" "the_values index = vs" "vs \<noteq> []"
    by (auto simp: the_values_def split: option.splits)
  have s0: "startIndex None = Some (int 0)" by (simp add: startIndex_def)
  from listPages_from[OF assms(1) vs(1) assms(2), of 0 None fuel st] vs assms(3) s0
  obtain pages where p: "listPages fuel st table ix (Some cnt) None = Some (Inr pages)" "pages \<noteq> []"
        "concat (map items pages) = map (AsyncStorage_getItem st) (entry_keys (name table) vs)"
        "length pages = ceil_div (length vs) (nat cnt)"
        "\<forall>r \<in> set (butlast pages). length (items r) = nat cnt \<and> continuation r \<noteq> None"
        "continuation (last pages) = None" "length (items (last pages)) \<le> nat cnt"
    by auto
  from p(2,4) have "max 1 (ceil_div (length vs) (nat cnt)) = length pages"
    by (cases pages) auto
  with p vs(2) show ?thesis by auto
qed

theorem pagination_complete_witness:
  "\<exists>pages. listPages 4 test_storage test_table ''age'' (Some 2) None = Some (Inr pages) \<and>
       concat (map items pages) =
         [Some (ItemJson (annabelle @ [(''id'', JNum 2)])), Some (ItemJson (donna @ [(''id'', JNum 3)])),
          Some (ItemJson (steve @ [(''id'', JNum 1)]))] \<and>
       length pages = 2 \<and> continuation (last pages) = None"
proof -
  let ?I = "\<lparr>ascending = Some True, numerical = Some True,
                    index_values = Some [mk_entry (JNum 2) (JNum 4),
                                         mk_entry (JNum 3) (JNum 48),
                                         mk_entry (JNum 1) (JNum 51)]\<rparr>"
  have 1: "map_of (indexes test_table) ''age'' = Some ?I" by (simp add: test_table_def)
  have 2: "length (the_values ?I) < 4" by (simp add: the_values_def)
  have 3: "map (AsyncStorage_getItem test_storage) (entry_keys (name test_table) (the_values ?I)) =
         [Some (ItemJson (annabelle @ [(''id'', JNum 2)])), Some (ItemJson (donna @ [(''id'', JNum 3)])),
          Some (ItemJson (steve @ [(''id'', JNum 1)]))]"
    by code_simp
  have 4: "max 1 (ceil_div (length (the_values ?I)) (nat 2)) = 2" by code_simp
  from pagination_complete[OF 1, of 2 4 test_storage] 2 show ?thesis
    unfolding 3 4 by auto
qed

text \<open>
  The claim as it was stated fails on an empty index: \<open>M = 0\<close> items make
  \<open>ceil_div 0 cnt = 0\<close> pages, and the caller gets one page.
\<close>

theorem pagination_counterexample:
  "map_of (indexes fresh_test_table) ''age'' =
     Some \<lparr>ascending = Some True, numerical = Some True, index_values = None\<rparr> \<and>
   listPages 1 [] fresh_test_table ''age'' (Some 2) None =
     Some (Inr [\<lparr>items = [], continuation = None\<rparr>]) \<and>
   length [\<lparr>items = [], continuation = None :: string option\<rparr>] \<noteq>
     ceil_div (length (the_values \<lparr>ascending = Some True, numerical = Some True, index_values = None\<rparr>)) (nat 2)"
  by code_simp

subsection \<open>A page size of zero\<close>

lemma listItems_stuck:
  assumes "map_of (indexes table) ix = Some index" "index_values index = Some vs"
    and "cnt \<le> 0" "startIndex cont = Some s" "s < int (length vs)"
  shows "listItems st table ix (Some cnt) cont = Inr \<lparr>items = [], continuation = Some (show_int s)\<rparr>"
proof -
  have "collect_keys (name table) vs s cnt [] = Inr ([], s)"
    using assms(3) by (subst collect_keys.simps) simp
  then show ?thesis
    using assms by (simp add: listItems_def Let_def AsyncStorage_multiGet_def)
qed

lemma listPages_stuck:
  assumes "map_of (indexes table) ix = Some index" "index_values index = Some vs"
    and "cnt \<le> 0" "s < int (length vs)"
  shows "startIndex cont = Some s \<Longrightarrow> listPages fuel st table ix (Some cnt) cont = None"
proof (induction fuel arbitrary: cont)
  case 0
  then show ?case by simp
next
  case (Suc fuel)
  have "listItems st table ix (Some cnt) cont = Inr \<lparr>items = [], continuation = Some (show_int s)\<rparr>"
    by (rule listItems_stuck[OF assms(1,2,3) Suc.prems assms(4)])
  moreover have "listPages fuel st table ix (Some cnt) (Some (show_int s)) = None"
    by (rule Suc.IH) (rule startIndex_show_int)
  ultimately show ?case by simp
qed

text \<open>
  Claim C9. With a page size of zero or less and a start offset below the length of the
  index, \<^verbatim>\<open>listItems\<close> returns no item and a continuation that is the decimal form of
  the same offset; that continuation is read back as the same offset, so the caller who
  passes continuations on never gets a page without one, whatever the fuel.
\<close>

theorem zero_count_never_advances:
  assumes "map_of (indexes table) ix = Some index" and "index_values index = Some vs"
    and "vs \<noteq> []" and "cnt \<le> 0" and "startIndex cont = Some s" and "s < int (length vs)"
  shows "listItems st table ix (Some cnt) cont = Inr \<lparr>items = [], continuation = Some (show_int s)\<rparr> \<and>
         startIndex (Some (show_int s)) = Some s \<and>
         (\<forall>fuel. listPages fuel st table ix (Some cnt) cont = None)"
  using listItems_stuck[OF assms(1,2,4,5,6)] listPages_stuck[OF assms(1,2,4,6,5)]
  by (simp add: startIndex_show_int)

theorem zero_count_never_advances_witness:
  "listItems test_storage test_table ''age'' (Some 0) None = Inr \<lparr>items = [], continuation = Some ''0''\<rparr> \<and>
   startIndex (Some ''0'') = Some 0 \<and>
   listPages 1000 test_storage test_table ''age'' (Some 0) None = None"
proof -
  let ?V = "[mk_entry (JNum 2) (JNum 4), mk_entry (JNum 3) (JNum 48), mk_entry (JNum 1) (JNum 51)]"
  let ?I = "\<lparr>ascending = Some True, numerical = Some True, index_values = Some ?V\<rparr>"
  have 1: "map_of (indexes test_table) ''age'' = Some ?I" by (simp add: test_table_def)
  have 2: "index_values ?I = Some ?V" by simp
  have 3: "?V \<noteq> []" by simp
  have 4: "startIndex None = Some 0" by (simp add: startIndex_def)
  have 5: "(0::int) < int (length ?V)" by simp
  have 6: "show_int 0 = ''0''" by code_simp
  from zero_count_never_advances[OF 1 2 3 _ 4 5, of 0 test_storage] show ?thesis
    unfolding 6 by simp
qed

subsection \<open>Saving items\<close>

lemma get_field_set_field:
  "get_field (set_field f v item) f' = (if f' = f then v else get_field item f')"
  by (simp add: get_field_def set_field_def update_conv')

lemma distinct_set_field: "distinct (map fst item) \<Longrightarrow> distinct (map fst (set_field f v item))"
  by (simp add: set_field_def distinct_update)

lemma map_of_filter_defined:
  "distinct (map fst item) \<Longrightarrow>
   map_of (filter (\<lambda>(f, v). v \<noteq> JUndefined) item) f =
     (case map_of item f of Some JUndefined \<Rightarrow> None | r \<Rightarrow> r)"
proof (induction item)
  case Nil
  then show ?case by simp
next
  case (Cons p item)
  obtain g v where p: "p = (g, v)" by (cases p)
  from Cons.prems p have "map_of item g = None"
    by (simp add: map_of_eq_None_iff)
  with Cons p show ?case by (auto split: option.splits jsval.splits)
qed

lemma deep_equal_stringify:
  "distinct (map fst item) \<Longrightarrow> deep_equal (filter (\<lambda>(f, v). v \<noteq> JUndefined) item) item"
  by (simp add: deep_equal_def get_field_def map_of_filter_defined split: option.splits jsval.splits)

lemma update_indexes_name [simp]:
  "name (fst (updateTableIndexes lc table item)) = name table"
  "nextId (fst (updateTableIndexes lc table item)) = nextId table"
  by (simp_all add: updateTableIndexes_def case_prod_beta)

lemma AsyncStorage_multiSet_simps:
  "AsyncStorage_multiSet [] st = st"
  "AsyncStorage_multiSet ((k, v) # rows) st = AsyncStorage_multiSet rows (AsyncStorage_setItem k v st)"
  by (simp_all add: AsyncStorage_multiSet_def)

text \<open>The item and the counter after a call, whether it failed or not.\<close>

lemma setItem_item:
  "fst (snd (snd (setItem lc table item st))) =
     (if falsy (get_field item ''id'') then set_field ''id'' (JNum (nextId table)) item else item)"
  by (simp add: setItem_def Let_def split: prod.splits sum.splits)

lemma setItem_table:
  "name (fst (snd (setItem lc table item st))) = name table"
  "nextId (fst (snd (setItem lc table item st))) =
     (if falsy (get_field item ''id'') then nextId table + 1 else nextId table)"
proof -
  let ?t1 = "if falsy (get_field item ''id'') then table\<lparr>nextId := nextId table + 1\<rparr> else table"
  let ?i1 = "if falsy (get_field item ''id'') then set_field ''id'' (JNum (nextId table)) item else item"
  have t: "fst (snd (setItem lc table item st)) = fst (updateTableIndexes lc ?t1 ?i1)"
    by (simp add: setItem_def Let_def split: prod.splits sum.splits)
  show "name (fst (snd (setItem lc table item st))) = name table"
    unfolding t by simp
  show "nextId (fst (snd (setItem lc table item st))) =
     (if falsy (get_field item ''id'') then nextId table + 1 else nextId table)"
    unfolding t by simp
qed

lemma setItem_stored:
  assumes "setItem lc table item st = (Inr (), table', item', st')"
  shows "AsyncStorage_getItem st' (item_key (name table) (get_field item' ''id'')) = Some (JSON_stringify_item item')"
    and "falsy (get_field item ''id'') \<Longrightarrow> AsyncStorage_getItem st' (name table) = Some (TableJson table')"
proof -
  let ?t1 = "if falsy (get_field item ''id'') then table\<lparr>nextId := nextId table + 1\<rparr> else table"
  let ?i1 = "if falsy (get_field item ''id'') then set_field ''id'' (JNum (nextId table)) item else item"
  obtain t2 r where u: "updateTableIndexes lc ?t1 ?i1 = (t2, r)" by (cases "updateTableIndexes lc ?t1 ?i1")
  from assms u obtain m where r: "r = Inr m"
    by (cases r) (auto simp: setItem_def Let_def)
  have n: "name t2 = name table" using update_indexes_name(1)[of lc ?t1 ?i1] u by simp
  from assms u r have e: "table' = t2" "item' = ?i1"
     "st' = AsyncStorage_multiSet ([(item_key (name t2) (get_field ?i1 ''id''), JSON_stringify_item ?i1)]
                @ (if falsy (get_field item ''id'') \<or> m then [(name t2, TableJson t2)] else [])) st"
    by (auto simp: setItem_def Let_def)
  show "AsyncStorage_getItem st' (item_key (name table) (get_field item' ''id'')) = Some (JSON_stringify_item item')"
    unfolding e n by (simp add: AsyncStorage_multiSet_simps getItem_setItem item_key_neq_name)
  show "falsy (get_field item ''id'') \<Longrightarrow> AsyncStorage_getItem st' (name table) = Some (TableJson table')"
    unfolding e n by (simp add: AsyncStorage_multiSet_simps getItem_setItem)
qed

text \<open>
  Claim C4. When \<^verbatim>\<open>setItem\<close> has returned, \<^verbatim>\<open>getItem\<close> with the id of the item (the
  one it had, or the one that was assigned) returns an item that is deep-equal to the
  item as the call left it, id included. The item is an object: no property occurs in it
  twice.
\<close>

theorem setItem_getItem_roundtrip:
  assumes "setItem lc table item st = (Inr (), table', item', st')"
    and "distinct (map fst item)"
  shows "\<exists>got. getItem st' table' (get_field item' ''id'') = Some (ItemJson got) \<and>
           deep_equal got item' \<and>
           item' = (if falsy (get_field item ''id'') then set_field ''id'' (JNum (nextId table)) item else item)"
proof -
  have i: "item' = (if falsy (get_field item ''id'') then set_field ''id'' (JNum (nextId table)) item else item)"
    using setItem_item[of lc table item st] assms(1) by simp
  have n: "name table' = name table"
    using setItem_table(1)[of lc table item st] assms(1) by simp
  have d: "distinct (map fst item')" using i assms(2) by (simp add: distinct_set_field)
  have "getItem st' table' (get_field item' ''id'') = Some (JSON_stringify_item item')"
    using setItem_stored(1)[OF assms(1)] by (simp add: getItem_eq n)
  then show ?thesis
    using deep_equal_stringify[OF d] i by (simp add: JSON_stringify_item_def)
qed

theorem setItem_getItem_roundtrip_witness:
  "\<exists>got. getItem (snd (snd (snd (setItem code_unit_order fresh_test_table steve []))))
               (fst (snd (setItem code_unit_order fresh_test_table steve []))) (JNum 1)
            = Some (ItemJson got) \<and>
         deep_equal got (steve @ [(''id'', JNum 1)])"
proof -
  let ?R = "setItem code_unit_order fresh_test_table steve []"
  have a: "fst ?R = Inr ()" by code_simp
  have b: "fst (snd (snd ?R)) = steve @ [(''id'', JNum 1)]" by code_simp
  have r: "?R = (Inr (), fst (snd ?R), steve @ [(''id'', JNum 1)], snd (snd (snd ?R)))"
    using a b by (metis prod.collapse)
  have d: "distinct (map fst steve)" by (simp add: steve_def)
  have g: "get_field (steve @ [(''id'', JNum 1)]) ''id'' = JNum 1" by code_simp
  from setItem_getItem_roundtrip[OF r d] show ?thesis unfolding g by blast
qed

subsection \<open>Assigned ids\<close>

lemma setItem_each_ids:
  "nextId table = int n \<Longrightarrow> list_all (\<lambda>item. falsy (get_field item ''id'')) its \<Longrightarrow>
   setItem_each lc table its st = (rs, table', its', st') \<Longrightarrow>
   its' = map (\<lambda>(k, item). set_field ''id'' (JNum (int k)) item) (enumerate n its) \<and>
   nextId table' = int (n + length its) \<and> name table' = name table \<and> length rs = length its"
proof (induction its arbitrary: table n st rs table' its' st')
  case Nil
  then show ?case by simp
next
  case (Cons item rest)
  obtain r t1 i1 s1 where one: "setItem lc table item st = (r, t1, i1, s1)"
    by (metis prod.collapse)
  obtain rs2 t2 is2 s2 where more: "setItem_each lc t1 rest s1 = (rs2, t2, is2, s2)"
    by (metis prod.collapse)
  from Cons.prems(2) have f: "falsy (get_field item ''id'')" and fr: "list_all (\<lambda>item. falsy (get_field item ''id'')) rest"
    by simp_all
  have i1: "i1 = set_field ''id'' (JNum (int n)) item"
    using setItem_item[of lc table item st] one f Cons.prems(1) by simp
  have t1: "nextId t1 = int (Suc n)" "name t1 = name table"
    using setItem_table[of lc table item st] one f Cons.prems(1) by simp_all
  from Cons.prems(3) one more have e: "rs = r # rs2" "table' = t2" "its' = i1 # is2" "st' = s2"
    by simp_all
  from Cons.IH[OF t1(1) fr more] i1 t1(2) e show ?case by simp
qed

lemma setItem_each_persisted:
  "its \<noteq> [] \<Longrightarrow> list_all (\<lambda>item. falsy (get_field item ''id'')) its \<Longrightarrow>
   setItem_each lc table its st = (rs, table', its', st') \<Longrightarrow> last rs = Inr () \<Longrightarrow>
   AsyncStorage_getItem st' (name table) = Some (TableJson table')"
proof (induction its arbitrary: table st rs table' its' st')
  case Nil
  then show ?case by simp
next
  case (Cons item rest)
  obtain r t1 i1 s1 where one: "setItem lc table item st = (r, t1, i1, s1)"
    by (metis prod.collapse)
  obtain rs2 t2 is2 s2 where more: "setItem_each lc t1 rest s1 = (rs2, t2, is2, s2)"
    by (metis prod.collapse)
  from Cons.prems(2) have f: "falsy (get_field item ''id'')" and fr: "list_all (\<lambda>item. falsy (get_field item ''id'')) rest"
    by simp_all
  from Cons.prems(3) one more have e: "rs = r # rs2" "table' = t2" "its' = i1 # is2" "st' = s2"
    by simp_all
  have n: "name t1 = name table" using setItem_table(1)[of lc table item st] one by simp
  show ?case
  proof (cases rest)
    case Nil
    with more have "rs2 = []" "t2 = t1" "s2 = s1" by simp_all
    with e Cons.prems(4) one have "setItem lc table item st = (Inr (), table', i1, st')" by simp
    from setItem_stored(2)[OF this f] show ?thesis .
  next
    case (Cons x xs)
    then have "rest \<noteq> []" by simp
    moreover have "rs2 \<noteq> []" using more Cons by (auto split: prod.splits)
    then have "last rs2 = Inr ()" using Cons.prems(4) e by simp
    ultimately show ?thesis using Cons.IH[OF _ fr more] n e by simp
  qed
qed

text \<open>
  Claim C3. On a table definition whose \<open>nextId\<close> is 1, \<open>N\<close> calls of \<^verbatim>\<open>setItem\<close> with
  items that have no id write the ids 1 to \<open>N\<close> into the items, in the order of the
  calls, and leave \<open>nextId\<close> at \<open>N + 1\<close>. When the last call has returned, the table
  definition with that counter is the one in the storage.
\<close>

theorem auto_ids_monotone:
  assumes "nextId table = 1" and "list_all (\<lambda>item. falsy (get_field item ''id'')) its"
    and "setItem_each lc table its st = (rs, table', its', st')"
  shows "map (\<lambda>item. get_field item ''id'') its' = map (\<lambda>k. JNum (int k)) [1..<Suc (length its)] \<and>
         its' = map (\<lambda>(k, item). set_field ''id'' (JNum (int k)) item) (enumerate 1 its) \<and>
         nextId table' = int (length its) + 1 \<and>
         (its \<noteq> [] \<and> last rs = Inr () \<longrightarrow> AsyncStorage_getItem st' (name table) = Some (TableJson table'))"
proof -
  have n: "nextId table = int 1" using assms(1) by simp
  from setItem_each_ids[OF n assms(2,3)]
  have its': "its' = map (\<lambda>(k, item). set_field ''id'' (JNum (int k)) item) (enumerate 1 its)"
    and nx: "nextId table' = int (1 + length its)" by simp_all
  have a: "map (\<lambda>item. get_field item ''id'') its' = map (\<lambda>k. JNum (int k)) (map fst (enumerate 1 its))"
    unfolding its' by (simp add: get_field_set_field case_prod_beta comp_def del: map_fst_enumerate)
  have b: "map fst (enumerate 1 its) = [1..<Suc (length its)]"
    by (simp only: map_fst_enumerate plus_1_eq_Suc)
  have ids: "map (\<lambda>item. get_field item ''id'') its' = map (\<lambda>k. JNum (int k)) [1..<Suc (length its)]"
    using a unfolding b .
  have nx': "nextId table' = int (length its) + 1" using nx by simp
  show ?thesis
    using ids its' nx' setItem_each_persisted[OF _ assms(2,3)] by blast
qed

theorem auto_ids_monotone_witness:
  "map (\<lambda>item. get_field item ''id'')
       (fst (snd (snd (setItem_each code_unit_order fresh_test_table [steve, annabelle, donna] []))))
     = [JNum 1, JNum 2, JNum 3] \<and>
   nextId (fst (snd (setItem_each code_unit_order fresh_test_table [steve, annabelle, donna] []))) = 4"
proof -
  let ?R = "setItem_each code_unit_order fresh_test_table [steve, annabelle, donna] []"
  have 1: "nextId fresh_test_table = 1" by (simp add: fresh_test_table_def)
  have 2: "list_all (\<lambda>item. falsy (get_field item ''id'')) [steve, annabelle, donna]" by code_simp
  have 3: "?R = (fst ?R, fst (snd ?R), fst (snd (snd ?R)), snd (snd (snd ?R)))" by simp
  have 4: "map (\<lambda>k. JNum (int k)) [1..<Suc (length [steve, annabelle, donna])] = [JNum 1, JNum 2, JNum 3]"
    by code_simp
  have 5: "int (length [steve, annabelle, donna]) + 1 = 4" by simp
  from auto_ids_monotone[OF 1 2 3] show ?thesis unfolding 4 5 by blast
qed

subsection \<open>An assigned id and its decimal string\<close>





subsection \<open>Sorting an index\<close>

lemma insert_by_sorted:
  assumes cmp: "\<And>a b. P a \<Longrightarrow> P b \<Longrightarrow> \<exists>c. cmp a b = Inr c \<and> (c < 0 \<longrightarrow> le a b) \<and> (\<not> c < 0 \<longrightarrow> le b a)"
    and trans: "\<And>a b c. P a \<Longrightarrow> P b \<Longrightarrow> P c \<Longrightarrow> le a b \<Longrightarrow> le b c \<Longrightarrow> le a c"
  shows "P x \<Longrightarrow> list_all P ys \<Longrightarrow> sorted_wrt le ys \<Longrightarrow>
         \<exists>r. insert_by cmp x ys = Inr r \<and> mset r = add_mset x (mset ys) \<and> sorted_wrt le r"
proof (induction ys)
  case Nil
  then show ?case by simp
next
  case (Cons y ys)
  from Cons.prems have Py: "P y" and Pys: "list_all P ys" and sys: "sorted_wrt le ys"
    and yle: "\<forall>z \<in> set ys. le y z" by simp_all
  from cmp[OF Cons.prems(1) Py] obtain c where c: "cmp x y = Inr c" "c < 0 \<longrightarrow> le x y" "\<not> c < 0 \<longrightarrow> le y x"
    by blast
  show ?case
  proof (cases "c < 0")
    case True
    have "\<forall>z \<in> set ys. le x z"
    proof
      fix z assume z: "z \<in> set ys"
      then have "P z" using Pys by (simp add: list_all_iff)
      with trans[OF Cons.prems(1) Py this] c(2) True yle z show "le x z" by blast
    qed
    with True c Cons.prems show ?thesis by simp
  next
    case False
    from Cons.IH[OF Cons.prems(1) Pys sys] obtain r where
      r: "insert_by cmp x ys = Inr r" "mset r = add_mset x (mset ys)" "sorted_wrt le r" by blast
    from r(2) have "set r = insert x (set ys)" by (metis set_mset_add_mset_insert set_mset_mset)
    with yle c(3) False have "\<forall>z \<in> set r. le y z" by auto
    with r c False show ?thesis by simp
  qed
qed

lemma sort_by_sorted:
  assumes cmp: "\<And>a b. P a \<Longrightarrow> P b \<Longrightarrow> \<exists>c. cmp a b = Inr c \<and> (c < 0 \<longrightarrow> le a b) \<and> (\<not> c < 0 \<longrightarrow> le b a)"
    and trans: "\<And>a b c. P a \<Longrightarrow> P b \<Longrightarrow> P c \<Longrightarrow> le a b \<Longrightarrow> le b c \<Longrightarrow> le a c"
  shows "list_all P xs \<Longrightarrow> \<exists>r. sort_by cmp xs = Inr r \<and> mset r = mset xs \<and> sorted_wrt le r"
proof (induction xs)
  case Nil
  then show ?case by simp
next
  case (Cons x xs)
  then obtain r where r: "sort_by cmp xs = Inr r" "mset r = mset xs" "sorted_wrt le r" by auto
  from r(2) have "set r = set xs" by (metis set_mset_mset)
  with Cons.prems have "list_all P r" and "P x" by (simp_all add: list_all_iff)
  from insert_by_sorted[of P cmp le, OF cmp trans this(2) this(1) r(3)] r(1,2)
  show ?case by auto
qed

lemma is_number_iff: "is_number v \<longleftrightarrow> (\<exists>n. v = JNum n)"
  by (cases v) auto

lemma is_string_iff: "is_string v \<longleftrightarrow> (\<exists>s. v = JStr s)"
  by (cases v) auto

lemma comparator_policy:
  assumes "collation lc" "entry_typed numer a" "entry_typed numer b"
  shows "\<exists>c. comparator lc numer asc a b = Inr c \<and>
             (c < 0 \<longrightarrow> policy_le lc numer asc a b) \<and> (\<not> c < 0 \<longrightarrow> policy_le lc numer asc b a)"
proof (cases numer)
  case True
  with assms obtain x y where "key_value a = JNum x" "key_value b = JNum y"
    by (auto simp: entry_typed_def is_number_iff)
  with True show ?thesis
    by (auto simp: comparator_def policy_le_def js_minus_def)
next
  case False
  with assms obtain s t where st: "key_value a = JStr s" "key_value b = JStr t"
    by (auto simp: entry_typed_def is_string_iff)
  from assms(1) have "0 \<le> lc s t \<Longrightarrow> lc t s \<le> 0" "0 \<le> lc t s \<Longrightarrow> lc s t \<le> 0"
    by (auto simp: collation_def)
  with False st show ?thesis
    by (auto simp: comparator_def policy_le_def localeCompare_def)
qed

lemma policy_le_trans:
  assumes "collation lc" "policy_le lc numer asc a b" "policy_le lc numer asc b c"
  shows "policy_le lc numer asc a c"
proof -
  from assms(1) have tr: "\<And>x y z. lc x y \<le> 0 \<Longrightarrow> lc y z \<le> 0 \<Longrightarrow> lc x z \<le> 0"
    by (auto simp: collation_def)
  from assms(2,3) show ?thesis
    by (auto simp: policy_le_def split: jsval.splits if_splits intro: tr)
qed

lemma sort_index:
  assumes "collation lc" "list_all (entry_typed numer) vs"
  shows "\<exists>r. sort_by (comparator lc numer asc) vs = Inr r \<and> mset r = mset vs \<and>
             sorted_wrt (policy_le lc numer asc) r"
  by (rule sort_by_sorted[where P = "entry_typed numer"])
     (use assms in \<open>auto intro: comparator_policy policy_le_trans\<close>)

subsection \<open>The index maintenance keeps the invariant\<close>

lemma scan_entry_new:
  "fst (snd (scan_entry i v vs)) \<longleftrightarrow> (\<forall>e \<in> set vs. \<not> loose_eq (key_id e) i)"
  by (induction vs) (auto simp: case_prod_beta)

lemma scan_entry_ids: "map key_id (fst (scan_entry i v vs)) = map key_id vs"
  by (induction vs) (auto simp: case_prod_beta)

lemma scan_entry_values:
  "e \<in> set (fst (scan_entry i v vs)) \<Longrightarrow> e \<in> set vs \<or> key_value e = v"
  by (induction vs) (auto simp: case_prod_beta split: if_splits)

lemma scan_entry_unchanged:
  "\<not> snd (snd (scan_entry i v vs)) \<Longrightarrow> fst (scan_entry i v vs) = vs"
  by (induction vs) (auto simp: case_prod_beta split: if_splits)

lemma entry_keys_ids: "map key_id vs' = map key_id vs \<Longrightarrow> entry_keys nm vs' = entry_keys nm vs"
proof -
  assume "map key_id vs' = map key_id vs"
  then have "map (item_key nm) (map key_id vs') = map (item_key nm) (map key_id vs)" by simp
  then show ?thesis by (simp add: entry_keys_def comp_def)
qed

lemma canonical_ids: "list_all (\<lambda>e. canonical_id (key_id e)) vs \<longleftrightarrow> list_all canonical_id (map key_id vs)"
  by (simp add: list_all_iff)

lemma the_values_update [simp]: "the_values (index\<lparr>index_values := Some vs\<rparr>) = vs"
  by (simp add: the_values_def)

lemma scan_the_values:
  "(case index_values index of Some vs \<Rightarrow> scan_entry i v vs | None \<Rightarrow> ([], True, False))
     = scan_entry i v (the_values index)"
  by (simp add: the_values_def split: option.splits)

lemma update_index_inv:
  assumes lc: "collation lc" and inv: "index_inv lc nm K index"
    and cid: "canonical_id (get_field item ''id'')"
    and str: "numerical index \<noteq> Some True \<Longrightarrow> is_string (get_field item field)"
  shows "\<exists>index' m. update_index lc field index item = (index', Inr m) \<and>
           index_inv lc nm (insert (item_key nm (get_field item ''id'')) K) index' \<and>
           ascending index' = ascending index \<and> numerical index' = numerical index"
proof -
  define i where "i = get_field item ''id''"
  define numer where "numer = (numerical index = Some True)"
  define asc where "asc = (ascending index = Some True)"
  define v where "v = (if numer \<and> \<not> is_number (get_field item field) then JNum 0 else get_field item field)"
  define vs where "vs = the_values index"
  define vals where "vals = fst (scan_entry i v vs)"
  define newEntry where "newEntry = fst (snd (scan_entry i v vs))"
  define changed where "changed = snd (snd (scan_entry i v vs))"
  define new where "new = \<lparr>key_id = i, key_value = v\<rparr>"
  define vals1 where "vals1 = (if newEntry then vals @ [new] else vals)"
  have sc: "scan_entry i v vs = (vals, newEntry, changed)"
    by (simp add: vals_def newEntry_def changed_def)
  from inv have sorted: "sorted_wrt (policy_le lc numer asc) vs"
    and dist: "distinct (entry_keys nm vs)" and keys: "set (entry_keys nm vs) = K"
    and typed: "list_all (entry_typed numer) vs" and canon: "list_all (\<lambda>e. canonical_id (key_id e)) vs"
    by (simp_all add: index_inv_def numer_def asc_def vs_def)
  have tv: "entry_typed numer new"
    using str by (auto simp: new_def v_def entry_typed_def numer_def)
  have fresh: "newEntry \<longleftrightarrow> item_key nm i \<notin> K"
  proof -
    have "loose_eq (key_id e) i \<longleftrightarrow> item_key nm (key_id e) = item_key nm i" if "e \<in> set vs" for e
      using that canon cid loose_eq_canonical[of "key_id e" i]
      by (simp add: list_all_iff i_def item_key_inj)
    then have "(\<forall>e \<in> set vs. \<not> loose_eq (key_id e) i) \<longleftrightarrow>
               (\<forall>e \<in> set vs. item_key nm (key_id e) \<noteq> item_key nm i)" by blast
    also have "\<dots> \<longleftrightarrow> item_key nm i \<notin> set (entry_keys nm vs)"
      unfolding entry_keys_def set_map image_iff by metis
    finally show ?thesis
      unfolding newEntry_def scan_entry_new keys[symmetric] .
  qed
  have k0: "entry_keys nm vals = entry_keys nm vs"
    unfolding vals_def by (rule entry_keys_ids) (rule scan_entry_ids)
  have c0: "list_all (\<lambda>e. canonical_id (key_id e)) vals"
    using canon unfolding vals_def canonical_ids scan_entry_ids .
  have t0: "list_all (entry_typed numer) vals"
    unfolding list_all_iff
  proof
    fix e assume "e \<in> set vals"
    then have "e \<in> set vs \<or> key_value e = v" unfolding vals_def by (rule scan_entry_values)
    then show "entry_typed numer e"
      using typed tv by (auto simp: list_all_iff entry_typed_def new_def)
  qed
  have ka: "entry_keys nm (vals @ [new]) = entry_keys nm vs @ [item_key nm i]"
    using k0 unfolding entry_keys_def new_def by simp
  have k1: "distinct (entry_keys nm vals1)" "set (entry_keys nm vals1) = insert (item_key nm i) K"
    using fresh dist keys k0 ka by (auto simp: vals1_def)
  have c1: "list_all (\<lambda>e. canonical_id (key_id e)) vals1"
    using c0 cid by (simp add: vals1_def new_def i_def)
  have t1: "list_all (entry_typed numer) vals1"
    using t0 tv by (simp add: vals1_def)
  have unfold: "update_index lc field index item =
      (if changed \<or> newEntry then
         (case sort_by (comparator lc numer asc) vals1 of
            Inl e \<Rightarrow> (index\<lparr>index_values := Some vals1\<rparr>, Inl e)
          | Inr vals2 \<Rightarrow> (index\<lparr>index_values := Some vals2\<rparr>, Inr True))
       else (index\<lparr>index_values := Some vals1\<rparr>, Inr False))"
    unfolding update_index_def Let_def scan_the_values vals1_def new_def vals_def newEntry_def
      changed_def v_def i_def numer_def asc_def vs_def
    by (simp add: case_prod_beta)
  show ?thesis
  proof (cases "changed \<or> newEntry")
    case True
    from sort_index[OF lc t1, of asc] obtain r where
      r: "sort_by (comparator lc numer asc) vals1 = Inr r" "mset r = mset vals1"
         "sorted_wrt (policy_le lc numer asc) r" by blast
    from r(2) have s: "set r = set vals1" by (metis set_mset_mset)
    from r(2) have "mset (entry_keys nm r) = mset (entry_keys nm vals1)"
      by (simp add: entry_keys_def)
    then have "distinct (entry_keys nm r)" "set (entry_keys nm r) = insert (item_key nm i) K"
      using k1 by (metis mset_eq_imp_distinct_iff, metis set_mset_mset)
    moreover have "list_all (entry_typed numer) r" "list_all (\<lambda>e. canonical_id (key_id e)) r"
      using t1 c1 s by (simp_all add: list_all_iff)
    ultimately have "index_inv lc nm (insert (item_key nm i) K) (index\<lparr>index_values := Some r\<rparr>)"
      using r(3) by (simp add: index_inv_def numer_def asc_def)
    with True r(1) show ?thesis unfolding unfold by (auto simp: i_def)
  next
    case False
    then have "vals = vs" unfolding vals_def changed_def by (simp add: scan_entry_unchanged)
    with False have v1: "vals1 = vs" by (simp add: vals1_def)
    have "index_inv lc nm (insert (item_key nm i) K) (index\<lparr>index_values := Some vals1\<rparr>)"
      using sorted k1 typed canon unfolding v1[symmetric]
      by (simp add: index_inv_def numer_def asc_def)
    with False show ?thesis unfolding unfold by (auto simp: i_def)
  qed
qed

lemma update_indexes_inv:
  assumes lc: "collation lc" and cid: "canonical_id (get_field item ''id'')"
  shows "\<forall>(field, index) \<in> set ixs. index_inv lc nm K index \<Longrightarrow>
         \<forall>(field, index) \<in> set ixs. numerical index \<noteq> Some True \<longrightarrow> is_string (get_field item field) \<Longrightarrow>
         \<exists>ixs' m. update_indexes lc item ixs = (ixs', Inr m) \<and>
            (\<forall>(field, index) \<in> set ixs'. index_inv lc nm (insert (item_key nm (get_field item ''id'')) K) index) \<and>
            index_flags ixs' = index_flags ixs"
proof (induction ixs)
  case Nil
  then show ?case by (auto simp: index_flags_def)
next
  case (Cons p ixs)
  obtain field index where p: "p = (field, index)" by (cases p)
  from Cons.prems p have inv: "index_inv lc nm K index"
    and str: "numerical index \<noteq> Some True \<Longrightarrow> is_string (get_field item field)" by auto
  from update_index_inv[OF lc inv cid str] obtain index' m where
    one: "update_index lc field index item = (index', Inr m)"
      "index_inv lc nm (insert (item_key nm (get_field item ''id'')) K) index'"
      "ascending index' = ascending index" "numerical index' = numerical index"
    by blast
  from Cons.IH Cons.prems obtain ixs' m' where
    more: "update_indexes lc item ixs = (ixs', Inr m')"
      "\<forall>(field, index) \<in> set ixs'. index_inv lc nm (insert (item_key nm (get_field item ''id'')) K) index"
      "index_flags ixs' = index_flags ixs"
    by auto
  from one more p show ?case by (simp add: index_flags_def)
qed

lemma string_fields_flags:
  "string_fields table = map fst (filter (\<lambda>(field, a, n). n \<noteq> Some True) (index_flags (indexes table)))"
  by (simp add: string_fields_def index_flags_def filter_map comp_def split_def)

lemma prefix_item_key: "prefix (nm @ ''|'') (item_key nm i)"
  by (simp add: item_key_def)

lemma not_prefix_name: "\<not> prefix (nm @ ''|'') nm"
  by (auto simp: prefix_def)

lemma live_keys_setItem:
  "live_keys nm (AsyncStorage_setItem k v st) =
     (if prefix (nm @ ''|'') k then insert k (live_keys nm st) else live_keys nm st)"
  by (auto simp: live_keys_def AsyncStorage_setItem_def AsyncStorage_getAllKeys_def dom_update)

lemma live_keys_removeItem:
  "live_keys nm (AsyncStorage_removeItem k st) = live_keys nm st - {k}"
  by (auto simp: live_keys_def AsyncStorage_removeItem_def AsyncStorage_getAllKeys_def delete_keys)

lemma setItem_inv:
  assumes lc: "collation lc" and inv: "table_inv lc table0 table st"
    and wf: "well_formed_call table0 (SetItem item)"
  shows "fst (setItem lc table item st) = Inr () \<and>
         table_inv lc table0 (fst (snd (setItem lc table item st))) (snd (snd (snd (setItem lc table item st))))"
proof -
  define assign where "assign = falsy (get_field item ''id'')"
  define item1 where "item1 = (if assign then set_field ''id'' (JNum (nextId table)) item else item)"
  define table1 where "table1 = (if assign then table\<lparr>nextId := nextId table + 1\<rparr> else table)"
  define nm where "nm = name table"
  define key where "key = item_key nm (get_field item1 ''id'')"
  have n1: "name table1 = nm" "indexes table1 = indexes table"
    by (simp_all add: table1_def nm_def)
  have cid: "canonical_id (get_field item1 ''id'')"
    using wf by (auto simp: item1_def assign_def get_field_set_field)
  from inv have flags: "index_flags (indexes table) = index_flags (indexes table0)"
    and nm0: "name table0 = nm"
    and ixs: "\<forall>(field, index) \<in> set (indexes table). index_inv lc nm (live_keys nm st) index"
    unfolding table_inv_def nm_def by auto
  have str: "\<forall>(field, index) \<in> set (indexes table). numerical index \<noteq> Some True \<longrightarrow> is_string (get_field item1 field)"
  proof (clarify)
    fix field index assume m: "(field, index) \<in> set (indexes table)" and n: "numerical index \<noteq> Some True"
    then have "field \<in> set (string_fields table)" by (force simp: string_fields_def)
    then have "field \<in> set (string_fields table0)" by (simp add: string_fields_flags flags)
    with wf have "is_string (get_field item field)" "\<not> (field = ''id'' \<and> falsy (get_field item ''id''))"
      by (simp_all add: list_all_iff)
    then show "is_string (get_field item1 field)"
      by (auto simp: item1_def assign_def get_field_set_field)
  qed
  from update_indexes_inv[OF lc cid ixs str] obtain ixs' m where
    u: "update_indexes lc item1 (indexes table) = (ixs', Inr m)"
       "\<forall>(field, index) \<in> set ixs'. index_inv lc nm (insert key (live_keys nm st)) index"
       "index_flags ixs' = index_flags (indexes table)"
    unfolding key_def by blast
  define table2 where "table2 = table1\<lparr>indexes := ixs'\<rparr>"
  have ut: "updateTableIndexes lc table1 item1 = (table2, Inr m)"
    by (simp add: updateTableIndexes_def n1 u(1) table2_def)
  define rows where "rows = [(item_key (name table2) (get_field item1 ''id''), JSON_stringify_item item1)]
                         @ (if assign \<or> m then [(name table2, TableJson table2)] else [])"
  have res: "setItem lc table item st = (Inr (), table2, item1, AsyncStorage_multiSet rows st)"
    unfolding setItem_def Let_def assign_def[symmetric] item1_def[symmetric] table1_def[symmetric]
    by (simp add: ut rows_def)
  have n2: "name table2 = nm" "indexes table2 = ixs'" by (simp_all add: table2_def n1)
  have live: "live_keys nm (AsyncStorage_multiSet rows st) = insert key (live_keys nm st)"
    by (simp add: rows_def n2 AsyncStorage_multiSet_simps live_keys_setItem prefix_item_key
          not_prefix_name key_def)
  have "table_inv lc table0 table2 (AsyncStorage_multiSet rows st)"
    using u(2,3) flags by (simp add: table_inv_def n2 nm0 live)
  then show ?thesis by (simp add: res)
qed

lemma distinct_one_match:
  "distinct (map f xs) \<Longrightarrow> length (filter (\<lambda>x. f x = k) xs) \<le> 1"
proof (induction xs)
  case Nil
  then show ?case by simp
next
  case (Cons x xs)
  show ?case
  proof (cases "f x = k")
    case True
    from Cons.prems have nin: "f x \<notin> f ` set xs" by simp
    have "\<forall>y \<in> set xs. f y \<noteq> k"
    proof
      fix y assume "y \<in> set xs"
      then have "f y \<in> f ` set xs" by (rule imageI)
      with nin True show "f y \<noteq> k" by metis
    qed
    then have "filter (\<lambda>x. f x = k) xs = []" by (simp add: filter_empty_conv)
    with True show ?thesis by simp
  next
    case False
    with Cons show ?thesis by simp
  qed
qed

lemma remove_index_inv:
  assumes inv: "index_inv lc nm K index" and cid: "canonical_id i"
  shows "length (filter (\<lambda>e. loose_eq (key_id e) i) (the_values index)) \<le> 1"
    and "index_inv lc nm (K - {item_key nm i})
           (index\<lparr>index_values := map_option (filter (\<lambda>e. \<not> loose_eq (key_id e) i)) (index_values index)\<rparr>)"
proof -
  define vs where "vs = the_values index"
  define f :: "LocalIndexKey \<Rightarrow> string" where "f = (\<lambda>e. item_key nm (key_id e))"
  from inv have sorted: "sorted_wrt (policy_le lc (numerical index = Some True) (ascending index = Some True)) vs"
    and dist: "distinct (map f vs)" and keys: "set (map f vs) = K"
    and typed: "list_all (entry_typed (numerical index = Some True)) vs"
    and canon: "list_all (\<lambda>e. canonical_id (key_id e)) vs"
    by (simp_all add: index_inv_def vs_def f_def entry_keys_def)
  have m: "loose_eq (key_id e) i \<longleftrightarrow> f e = item_key nm i" if "e \<in> set vs" for e
    using that canon cid loose_eq_canonical[of "key_id e" i]
    by (simp add: list_all_iff f_def item_key_inj)
  then have fm: "filter (\<lambda>e. loose_eq (key_id e) i) vs = filter (\<lambda>e. f e = item_key nm i) vs"
    and fn: "filter (\<lambda>e. \<not> loose_eq (key_id e) i) vs = filter (\<lambda>e. f e \<noteq> item_key nm i) vs"
    by (auto intro: filter_cong)
  show "length (filter (\<lambda>e. loose_eq (key_id e) i) (the_values index)) \<le> 1"
    unfolding vs_def[symmetric] fm using dist by (rule distinct_one_match)
  let ?vs' = "filter (\<lambda>e. \<not> loose_eq (key_id e) i) vs"
  have tv: "the_values (index\<lparr>index_values := map_option (filter (\<lambda>e. \<not> loose_eq (key_id e) i)) (index_values index)\<rparr>) = ?vs'"
    by (simp add: the_values_def vs_def split: option.splits)
  have mf: "map f ?vs' = filter (\<lambda>k. k \<noteq> item_key nm i) (map f vs)"
    unfolding fn by (simp add: filter_map comp_def)
  have "distinct (map f ?vs')" "set (map f ?vs') = K - {item_key nm i}"
    unfolding mf using dist keys by auto
  moreover have "sorted_wrt (policy_le lc (numerical index = Some True) (ascending index = Some True)) ?vs'"
    using sorted by (rule sorted_wrt_filter)
  moreover have "list_all (entry_typed (numerical index = Some True)) ?vs'" "list_all (\<lambda>e. canonical_id (key_id e)) ?vs'"
    using typed canon by (simp_all add: list_all_iff)
  ultimately show "index_inv lc nm (K - {item_key nm i})
           (index\<lparr>index_values := map_option (filter (\<lambda>e. \<not> loose_eq (key_id e) i)) (index_values index)\<rparr>)"
    unfolding index_inv_def tv by (simp add: entry_keys_def f_def)
qed

lemma removeItem_inv:
  assumes inv: "table_inv lc table0 table st" and cid: "canonical_id i"
  shows "table_inv lc table0 (fst (removeItem table i st)) (snd (removeItem table i st))"
proof -
  define nm where "nm = name table"
  define K where "K = live_keys nm st"
  from inv have flags: "index_flags (indexes table) = index_flags (indexes table0)"
    and nm0: "name table0 = nm"
    and ixs: "\<forall>(field, index) \<in> set (indexes table). index_inv lc nm K index"
    unfolding table_inv_def nm_def K_def by auto
  have one: "at_most_one_entry i (indexes table)"
    unfolding at_most_one_entry_def list_all_iff
  proof (clarify)
    fix field index assume "(field, index) \<in> set (indexes table)"
    with ixs have "index_inv lc nm K index" by auto
    from remove_index_inv(1)[OF this cid]
    show "case index_values index of None \<Rightarrow> True
          | Some vs \<Rightarrow> length (filter (\<lambda>e. loose_eq (key_id e) i) vs) \<le> 1"
      by (simp add: the_values_def split: option.splits)
  qed
  let ?ixs' = "map (\<lambda>(field, index).
            (field, index\<lparr>index_values := map_option (filter (\<lambda>e. \<not> loose_eq (key_id e) i)) (index_values index)\<rparr>))
         (indexes table)"
  have t': "fst (removeItem table i st) = table\<lparr>indexes := ?ixs'\<rparr>"
    using remove_from_indexes_unique[OF one] by (simp add: removeItem_def Let_def case_prod_beta)
  have live: "live_keys nm (snd (removeItem table i st)) = K - {item_key nm i}"
    by (simp add: removeItem_def Let_def case_prod_beta live_keys_removeItem live_keys_setItem
          not_prefix_name nm_def K_def)
  have "index_flags ?ixs' = index_flags (indexes table)"
    by (simp add: index_flags_def comp_def case_prod_beta)
  moreover have "\<forall>(field, index) \<in> set ?ixs'. index_inv lc nm (K - {item_key nm i}) index"
    using ixs remove_index_inv(2)[OF _ cid] by auto
  ultimately show ?thesis
    unfolding t' table_inv_def using flags nm0 live by (simp add: nm_def)
qed

lemma run_call_inv:
  assumes "collation lc" "table_inv lc table0 table st" "well_formed_call table0 c"
  shows "table_inv lc table0 (fst (run_call lc c (table, st))) (snd (run_call lc c (table, st)))"
proof (cases c)
  case (SetItem item)
  with setItem_inv[OF assms(1,2), of item] assms(3) show ?thesis
    by (simp add: case_prod_beta)
next
  case (RemoveItem i)
  with removeItem_inv[OF assms(2), of i] assms(3) show ?thesis by simp
qed

lemma run_calls_inv:
  assumes "collation lc"
  shows "table_inv lc table0 table st \<Longrightarrow> list_all (well_formed_call table0) calls \<Longrightarrow>
         table_inv lc table0 (fst (run_calls lc calls (table, st))) (snd (run_calls lc calls (table, st)))"
proof (induction calls arbitrary: table st)
  case Nil
  then show ?case by (simp add: run_calls_def)
next
  case (Cons c calls)
  obtain t1 s1 where r: "run_call lc c (table, st) = (t1, s1)" by (cases "run_call lc c (table, st)")
  from run_call_inv[OF assms Cons.prems(1), of c] Cons.prems(2) r
  have "table_inv lc table0 t1 s1" by simp
  from Cons.IH[OF this] Cons.prems(2) r show ?case by (simp add: run_calls_def)
qed

lemma fresh_table_inv: "fresh_table table st \<Longrightarrow> table_inv lc table table st"
  by (auto simp: fresh_table_def table_inv_def index_inv_def list_all_iff entry_keys_def live_keys_def)

lemma table_inv_indexes_ok: "table_inv lc table0 table st \<Longrightarrow> indexes_ok lc table st"
  by (auto simp: table_inv_def indexes_ok_def index_inv_def index_ok_def)

lemma code_unit_order_flip: "0 \<le> code_unit_order a b \<Longrightarrow> code_unit_order b a \<le> 0"
proof (induction a b rule: code_unit_order.induct)
  case (4 a as b bs)
  show ?case
  proof (cases "(of_char a :: nat) < of_char b")
    case True
    with 4 show ?thesis by simp
  next
    case False
    show ?thesis
    proof (cases "(of_char b :: nat) < of_char a")
      case True
      with False show ?thesis by simp
    next
      case b: False
      with False 4 show ?thesis by simp
    qed
  qed
qed simp_all

lemma code_unit_order_trans:
  "code_unit_order a b \<le> 0 \<Longrightarrow> code_unit_order b c \<le> 0 \<Longrightarrow> code_unit_order a c \<le> 0"
proof (induction a b arbitrary: c rule: code_unit_order.induct)
  case 1
  then show ?case by simp
next
  case (2 b bs)
  then show ?case by (cases c) simp_all
next
  case (3 a as)
  then show ?case by simp
next
  case (4 a as b bs)
  show ?case
  proof (cases c)
    case Nil
    with 4 show ?thesis by simp
  next
    case (Cons d ds)
    define x y z :: nat where "x = of_char a" and "y = of_char b" and "z = of_char d"
    have ab: "code_unit_order (a # as) (b # bs) = (if x < y then - 1 else if y < x then 1 else code_unit_order as bs)"
      by (simp add: x_def y_def)
    have bc: "code_unit_order (b # bs) (d # ds) = (if y < z then - 1 else if z < y then 1 else code_unit_order bs ds)"
      by (simp add: z_def y_def)
    have ac: "code_unit_order (a # as) (d # ds) = (if x < z then - 1 else if z < x then 1 else code_unit_order as ds)"
      by (simp add: x_def z_def)
    from "4.prems"(1) have xy: "x \<le> y" unfolding ab by (simp split: if_splits)
    from "4.prems"(2) have yz: "y \<le> z" unfolding Cons bc by (simp split: if_splits)
    show ?thesis
    proof (cases "x < z")
      case True
      then show ?thesis unfolding Cons ac by simp
    next
      case False
      with xy yz have e: "x = y" "y = z" by simp_all
      from "4.prems"(1) e have 1: "code_unit_order as bs \<le> 0" unfolding ab by simp
      from "4.prems"(2) e have 2: "code_unit_order bs ds \<le> 0" unfolding Cons bc by simp
      from e have "\<not> (of_char a :: nat) < of_char b" "\<not> (of_char b :: nat) < of_char a"
        by (simp_all add: x_def y_def)
      from "4.IH"[OF this 1 2] e show ?thesis unfolding Cons ac by simp
    qed
  qed
qed

lemma collation_code_unit_order: "collation code_unit_order"
  unfolding collation_def using code_unit_order_flip code_unit_order_trans by blast

subsection \<open>The index ordering invariant\<close>

text \<open>
  Claim C1, corrected. Take a table that was just defined, a collation, and any sequence
  of \<^verbatim>\<open>setItem\<close> and \<^verbatim>\<open>removeItem\<close> calls in which every id that is passed in is
  canonical (a number, or a string that is not numeric or is the decimal form of its
  number; an item may also have no id) and every item has a string in each field that a
  string index sorts by. After the calls, every index is sorted by its policy, and its
  entries and the stored items of the table correspond one to one through the item key.
\<close>

theorem index_invariant:
  assumes "collation lc" and "fresh_table table st"
    and "list_all (well_formed_call table) calls"
  shows "indexes_ok lc (fst (run_calls lc calls (table, st))) (snd (run_calls lc calls (table, st)))"
proof -
  have "table_inv lc table table st"
    using assms(2) by (rule fresh_table_inv)
  then have "table_inv lc table (fst (run_calls lc calls (table, st))) (snd (run_calls lc calls (table, st)))"
    using assms(3) by (rule run_calls_inv[OF assms(1)])
  then show ?thesis by (rule table_inv_indexes_ok)
qed

theorem index_invariant_witness:
  "indexes_ok code_unit_order
     (fst (run_calls code_unit_order
        [SetItem steve, SetItem annabelle, SetItem donna, RemoveItem (JStr ''2''),
         SetItem [(''id'', JStr ''1''), (''name'', JStr ''stephen''), (''age'', JNum 52)]]
        (fresh_test_table, [])))
     (snd (run_calls code_unit_order
        [SetItem steve, SetItem annabelle, SetItem donna, RemoveItem (JStr ''2''),
         SetItem [(''id'', JStr ''1''), (''name'', JStr ''stephen''), (''age'', JNum 52)]]
        (fresh_test_table, [])))"
proof -
  have 1: "fresh_table fresh_test_table []" by code_simp
  have 2: "list_all (well_formed_call fresh_test_table)
        [SetItem steve, SetItem annabelle, SetItem donna, RemoveItem (JStr ''2''),
         SetItem [(''id'', JStr ''1''), (''name'', JStr ''stephen''), (''age'', JNum 52)]]"
    by code_simp
  show ?thesis by (rule index_invariant[OF collation_code_unit_order 1 2])
qed

text \<open>
  The claim as it was stated fails on ids that \<^verbatim>\<open>==\<close> each other and make different
  keys. After an item that is assigned the id 1 and an item with the id \<open>''01''\<close>, the
  storage holds both items, under \<open>test|1\<close> and \<open>test|01\<close>, and each index holds one entry,
  with the id 1 and the value of the second item.
\<close>

theorem index_invariant_counterexample:
  "collation code_unit_order \<and> fresh_table fresh_test_table [] \<and>
   \<not> indexes_ok code_unit_order
       (fst (run_calls code_unit_order [SetItem steve, SetItem ((''id'', JStr ''01'') # annabelle)]
              (fresh_test_table, [])))
       (snd (run_calls code_unit_order [SetItem steve, SetItem ((''id'', JStr ''01'') # annabelle)]
              (fresh_test_table, []))) \<and>
   map (\<lambda>(field, index). the_values index)
       (indexes (fst (run_calls code_unit_order [SetItem steve, SetItem ((''id'', JStr ''01'') # annabelle)]
              (fresh_test_table, []))))
     = [[mk_entry (JNum 1) (JStr ''annabelle'')], [mk_entry (JNum 1) (JNum 4)]] \<and>
   AsyncStorage_getAllKeys
       (snd (run_calls code_unit_order [SetItem steve, SetItem ((''id'', JStr ''01'') # annabelle)]
              (fresh_test_table, [])))
     = [''test|1'', ''test'', ''test|01'']"
proof -
  have "fresh_table fresh_test_table [] \<and>
   \<not> indexes_ok code_unit_order
       (fst (run_calls code_unit_order [SetItem steve, SetItem ((''id'', JStr ''01'') # annabelle)]
              (fresh_test_table, [])))
       (snd (run_calls code_unit_order [SetItem steve, SetItem ((''id'', JStr ''01'') # annabelle)]
              (fresh_test_table, []))) \<and>
   map (\<lambda>(field, index). the_values index)
       (indexes (fst (run_calls code_unit_order [SetItem steve, SetItem ((''id'', JStr ''01'') # annabelle)]
              (fresh_test_table, []))))
     = [[mk_entry (JNum 1) (JStr ''annabelle'')], [mk_entry (JNum 1) (JNum 4)]] \<and>
   AsyncStorage_getAllKeys
       (snd (run_calls code_unit_order [SetItem steve, SetItem ((''id'', JStr ''01'') # annabelle)]
              (fresh_test_table, [])))
     = [''test|1'', ''test'', ''test|01'']"
    by code_simp
  with collation_code_unit_order show ?thesis by blast
qed

text \<open>
  What the corrected claim leaves out. A string index compares with
  \<^verbatim>\<open>localeCompare\<close>, which only strings have, and unlike the numerical branch the string
  branch does not replace a value of the wrong type. The application's own log table has
  a string index on \<open>timestamp\<close> and stores numbers there: the second \<^verbatim>\<open>setItem\<close> raises a
  TypeError inside the sort, after the entry was added to the index in memory and before
  anything is written.
\<close>

lemma string_index_on_numbers_raises:
  "setItem code_unit_order
     \<lparr>name = ''location-log'', nextId = 2,
      indexes = [(''timestamp'', \<lparr>ascending = Some False, numerical = None,
                                 index_values = Some [mk_entry (JNum 1) (JNum 1000)]\<rparr>)]\<rparr>
     [(''timestamp'', JNum 2000)]
     [(''location-log|1'', ItemJson [(''timestamp'', JNum 1000), (''id'', JNum 1)])]
   = (Inl TypeError,
      \<lparr>name = ''location-log'', nextId = 3,
       indexes = [(''timestamp'', \<lparr>ascending = Some False, numerical = None,
                                  index_values = Some [mk_entry (JNum 1) (JNum 1000),
                                                       mk_entry (JNum 2) (JNum 2000)]\<rparr>)]\<rparr>,
      [(''timestamp'', JNum 2000), (''id'', JNum 2)],
      [(''location-log|1'', ItemJson [(''timestamp'', JNum 1000), (''id'', JNum 1)])])"
  by code_simp

end
